theory Spec2Isabelle
  imports Main "HOL-Library.Sublist"
begin

section \<open>Items\<close>

text \<open>
  The objects that flow through the pipeline are plain JavaScript objects with numeric
  fields (\<^verbatim>\<open>{ id: n }\<close>, later \<^verbatim>\<open>{ id: n, changedAt: t }\<close>).  An object is the list
  of its own properties in insertion order; numbers are integers.
\<close>

type_synonym obj = "(string \<times> int) list"

definition get_field :: "string \<Rightarrow> obj \<Rightarrow> int option" where
  "get_field k c = map_of c k"

text \<open>
  Writing a property in an object literal after a spread: an existing property keeps its
  place and takes the new value, a new property goes to the end.
\<close>

fun set_field :: "string \<Rightarrow> int \<Rightarrow> obj \<Rightarrow> obj" where
  "set_field k v [] = [(k, v)]"
| "set_field k v ((k', v') # c) =
     (if k' = k then (k, v) # c else (k', v') # set_field k v c)"

text \<open>\<^verbatim>\<open>{ ...chunk, changedAt: t }\<close>, the object pushed by \<^verbatim>\<open>_transform\<close>.\<close>

definition enrich :: "obj \<Rightarrow> int \<Rightarrow> obj" where
  "enrich chunk t = set_field ''changedAt'' t chunk"

text \<open>
  \<^verbatim>\<open>work(id)\<close> answers with a promise (settled by a 1 ms timer) when \<^verbatim>\<open>id % 8 === 0\<close>
  and with a plain number otherwise.  The number itself is the clock's (\<^verbatim>\<open>Date.now()\<close>)
  and is supplied from outside the model.  A missing \<^verbatim>\<open>id\<close> is \<^verbatim>\<open>undefined\<close>, whose
  remainder is \<^verbatim>\<open>NaN\<close>, so the answer is a plain number.
\<close>

datatype work_answer = Deferred | Immediate

definition work :: "int option \<Rightarrow> work_answer" where
  "work ident = (case ident of
       None \<Rightarrow> Immediate
     | Some n \<Rightarrow> if n mod 8 = 0 then Deferred else Immediate)"

section \<open>The source generator\<close>

text \<open>
  \<^verbatim>\<open>generate(size)\<close> is an async generator.  Its object is suspended at the start, at
  the \<^verbatim>\<open>yield\<close> inside the loop (with the loop variable \<^verbatim>\<open>n\<close>), or completed.  A call of
  \<^verbatim>\<open>next()\<close> runs it to the following \<^verbatim>\<open>yield\<close> or to the \<^verbatim>\<open>return\<close>.
\<close>

datatype 'a iter_result = Value 'a | Done

datatype gen_state = GenStart | GenAtYield int | GenCompleted

definition loop_test :: "int \<Rightarrow> int \<Rightarrow> obj iter_result \<times> gen_state" where
  "loop_test sz n =
     (if n < sz then (Value [(''id'', n)], GenAtYield n) else (Done, GenCompleted))"

fun gen_next :: "int \<Rightarrow> gen_state \<Rightarrow> obj iter_result \<times> gen_state" where
  "gen_next sz GenStart = loop_test sz 0"
| "gen_next sz (GenAtYield n) = loop_test sz (n + 1)"
| "gen_next sz GenCompleted = (Done, GenCompleted)"

text \<open>The answers to \<open>k\<close> successive calls of \<^verbatim>\<open>next()\<close>.\<close>

fun gen_nexts :: "int \<Rightarrow> nat \<Rightarrow> gen_state \<Rightarrow> obj iter_result list" where
  "gen_nexts sz 0 st = []"
| "gen_nexts sz (Suc k) st =
     (case gen_next sz st of (r, st') \<Rightarrow> r # gen_nexts sz k st')"

section \<open>The admission gate\<close>

text \<open>
  Class \<^verbatim>\<open>Semaphoreish\<close>.  A resolver stored in \<^verbatim>\<open>_resolvers\<close> is identified by the
  caller of \<^verbatim>\<open>acquire\<close> whose promise it settles.
\<close>

record gate =
  running :: int
  size_cap :: int
  resolvers :: "nat list"

definition Semaphoreish :: "int \<Rightarrow> gate" where
  "Semaphoreish sz = \<lparr>running = 0, size_cap = sz, resolvers = []\<rparr>"

text \<open>
  \<^verbatim>\<open>acquire\<close> is an async function: a call runs up to its first \<^verbatim>\<open>await\<close>.  Either the
  test fails and the call goes straight to \<^verbatim>\<open>this._running++\<close> and returns, or the
  resolver is queued and the call is suspended; the rest of the body
  (\<open>acquire_resume\<close>) runs in a later job, once the resolver has been called.
\<close>

datatype acquire_result = Returned | Awaiting

definition acquire_resume :: "gate \<Rightarrow> gate" where
  "acquire_resume g = g\<lparr>running := running g + 1\<rparr>"

definition acquire :: "nat \<Rightarrow> gate \<Rightarrow> gate \<times> acquire_result" where
  "acquire w g =
     (if running g \<ge> size_cap g
      then (g\<lparr>resolvers := resolvers g @ [w]\<rparr>, Awaiting)
      else (acquire_resume g, Returned))"

text \<open>
  \<^verbatim>\<open>release\<close> decrements, shifts the first resolver off the queue and calls it.  The
  result names the caller whose promise was resolved, if any.
\<close>

definition release :: "gate \<Rightarrow> gate \<times> nat option" where
  "release g =
     (let g1 = g\<lparr>running := running g - 1\<rparr>
      in case resolvers g1 of
           [] \<Rightarrow> (g1, None)
         | next # rest \<Rightarrow> (g1\<lparr>resolvers := rest\<rparr>, Some next))"

subsection \<open>The gate on the event loop\<close>

text \<open>
  JavaScript runs one job at a time.  Calls of \<^verbatim>\<open>acquire\<close> and \<^verbatim>\<open>release\<close> happen inside
  jobs; a resolved promise puts the continuation of its waiter at the end of the job
  queue, and \<open>Tick\<close> runs the continuation at the front.  \<open>admitted\<close> records the callers in
  the order in which \<^verbatim>\<open>this._running++\<close> was executed for them.
\<close>

datatype gate_event = Acquire nat | Release | Tick

record gate_sys =
  sem :: gate
  jobs :: "nat list"
  admitted :: "nat list"

definition gate_init :: "int \<Rightarrow> gate_sys" where
  "gate_init sz = \<lparr>sem = Semaphoreish sz, jobs = [], admitted = []\<rparr>"

fun gate_step :: "gate_sys \<Rightarrow> gate_event \<Rightarrow> gate_sys" where
  "gate_step s (Acquire w) =
     (case acquire w (sem s) of
        (g, Returned) \<Rightarrow> s\<lparr>sem := g, admitted := admitted s @ [w]\<rparr>
      | (g, Awaiting) \<Rightarrow> s\<lparr>sem := g\<rparr>)"
| "gate_step s Release =
     (case release (sem s) of
        (g, None) \<Rightarrow> s\<lparr>sem := g\<rparr>
      | (g, Some w) \<Rightarrow> s\<lparr>sem := g, jobs := jobs s @ [w]\<rparr>)"
| "gate_step s Tick =
     (case jobs s of
        [] \<Rightarrow> s
      | w # ws \<Rightarrow> s\<lparr>sem := acquire_resume (sem s), jobs := ws,
                     admitted := admitted s @ [w]\<rparr>)"

definition gate_run :: "gate_event list \<Rightarrow> gate_sys \<Rightarrow> gate_sys" where
  "gate_run es s = foldl gate_step s es"

section \<open>The transform stage\<close>

text \<open>
  Class \<^verbatim>\<open>ConcurrentTransform\<close>.  \<^verbatim>\<open>_transform\<close> is an async function, so each call of
  it is a coroutine that is suspended at one of its \<^verbatim>\<open>await\<close>s or has run to its end.
  The calls are numbered in the order in which the stream makes them; call \<open>k\<close> is also
  the caller \<open>k\<close> of \<^verbatim>\<open>acquire\<close>.
\<close>

datatype pc =
    AcquireWait   \<comment> \<open>inside \<^verbatim>\<open>acquire\<close>, resolver queued, promise pending\<close>
  | AcquireWoken  \<comment> \<open>resolver called; the rest of \<^verbatim>\<open>acquire\<close> is a pending job\<close>
  | AcquireDone   \<comment> \<open>\<^verbatim>\<open>acquire\<close> has returned; the rest of \<^verbatim>\<open>_transform\<close> is a pending job\<close>
  | AwaitWork     \<comment> \<open>\<^verbatim>\<open>callback()\<close> and \<^verbatim>\<open>work(chunk.id)\<close> done; waiting for the result\<close>
  | Finished      \<comment> \<open>pushed, \<^verbatim>\<open>_checkDone\<close> called, returned\<close>

text \<open>
  What the stage does is recorded in a log, in the order of execution: the statements of
  \<^verbatim>\<open>_transform\<close> for call \<open>k\<close>, the \<^verbatim>\<open>'data'\<close> events of the readable side, the calls
  of \<^verbatim>\<open>release\<close> and the calls of the trapped completion callback.
\<close>

datatype action =
    Acquired nat              \<comment> \<open>\<^verbatim>\<open>this._running++\<close> executed for call \<open>k\<close>\<close>
  | Callback nat              \<comment> \<open>\<^verbatim>\<open>callback()\<close> of call \<open>k\<close>\<close>
  | WorkCalled nat work_answer
  | Settled nat int           \<comment> \<open>the \<^verbatim>\<open>await\<close> of the worker's answer yields the result\<close>
  | Pushed nat obj            \<comment> \<open>\<^verbatim>\<open>this.push(...)\<close> of call \<open>k\<close>\<close>
  | Data nat obj              \<comment> \<open>\<^verbatim>\<open>'data'\<close> emitted with the object pushed by call \<open>k\<close>\<close>
  | Released
  | FinalCallback             \<comment> \<open>\<^verbatim>\<open>this.onFinal()\<close>\<close>

text \<open>
  \<open>semaphore\<close> and \<open>onFinal\<close> are the fields of the class (\<open>onFinal\<close> holds whether a
  callback has been stored).  \<open>flowing\<close> and \<open>buffer\<close> are the state of the readable side
  that the stream base class keeps: whether it is in flowing mode, and the objects pushed
  but not yet emitted (each with the number of the call that pushed it).
\<close>

record transform =
  semaphore :: gate
  onFinal :: bool
  calls :: "(obj \<times> pc) list"
  flowing :: bool
  buffer :: "(nat \<times> obj) list"
  log :: "action list"

text \<open>
  The constructor.  The gate takes \<^verbatim>\<open>readableHighWaterMark\<close> (16 by default in object
  mode) as its size; attaching the \<^verbatim>\<open>'data'\<close> listener switches the readable side to
  flowing mode.
\<close>

definition ConcurrentTransform :: "int \<Rightarrow> transform" where
  "ConcurrentTransform hwm =
     \<lparr>semaphore = Semaphoreish hwm, onFinal = False, calls = [], flowing = True,
      buffer = [], log = []\<rparr>"

definition set_pc :: "nat \<Rightarrow> pc \<Rightarrow> (obj \<times> pc) list \<Rightarrow> (obj \<times> pc) list" where
  "set_pc k p cs = (if k < length cs then cs[k := (fst (cs ! k), p)] else cs)"

definition checkDone :: "transform \<Rightarrow> transform" where
  "checkDone s =
     (if running (semaphore s) = 0 \<and> onFinal s
      then s\<lparr>log := log s @ [FinalCallback]\<rparr>
      else s)"

definition final :: "transform \<Rightarrow> transform" where
  "final s = checkDone (s\<lparr>onFinal := True\<rparr>)"

text \<open>
  The \<^verbatim>\<open>'data'\<close> listener of the constructor: \<^verbatim>\<open>release\<close>, whose call of a resolver
  makes the rest of that waiter's \<^verbatim>\<open>acquire\<close> a pending job, then \<^verbatim>\<open>_checkDone\<close>.
\<close>

definition wake :: "nat option \<Rightarrow> (obj \<times> pc) list \<Rightarrow> (obj \<times> pc) list" where
  "wake r cs = (case r of None \<Rightarrow> cs | Some w \<Rightarrow> set_pc w AcquireWoken cs)"

definition on_data :: "transform \<Rightarrow> transform" where
  "on_data s =
     (case release (semaphore s) of
        (g, r) \<Rightarrow>
          checkDone (s\<lparr>semaphore := g, calls := wake r (calls s), log := log s @ [Released]\<rparr>))"

text \<open>
  The readable side of the stream base class.  Emitting \<^verbatim>\<open>'data'\<close> runs the listener
  above.  \<^verbatim>\<open>push\<close> emits at once when the stream is flowing and nothing is buffered, and
  buffers the object otherwise.
\<close>

definition emit_data :: "nat \<times> obj \<Rightarrow> transform \<Rightarrow> transform" where
  "emit_data x s = on_data (s\<lparr>log := log s @ [Data (fst x) (snd x)]\<rparr>)"

definition push :: "nat \<times> obj \<Rightarrow> transform \<Rightarrow> transform" where
  "push x s =
     (if flowing s \<and> buffer s = [] then emit_data x s
      else s\<lparr>buffer := buffer s @ [x]\<rparr>)"

text \<open>
  \<^verbatim>\<open>_transform\<close> in its three parts: up to the \<^verbatim>\<open>await\<close> of \<^verbatim>\<open>acquire\<close>; from there
  (\<^verbatim>\<open>callback()\<close>, the call of \<^verbatim>\<open>work\<close>) to the \<^verbatim>\<open>await\<close> of the result; and from the
  result \<open>t\<close> (\<^verbatim>\<open>push\<close>, \<^verbatim>\<open>_checkDone\<close>) to the end.
\<close>

definition transform_begin :: "obj \<Rightarrow> transform \<Rightarrow> transform" where
  "transform_begin chunk s =
     (let k = length (calls s)
      in case acquire k (semaphore s) of
           (g, Returned) \<Rightarrow>
             s\<lparr>semaphore := g, calls := calls s @ [(chunk, AcquireDone)],
               log := log s @ [Acquired k]\<rparr>
         | (g, Awaiting) \<Rightarrow>
             s\<lparr>semaphore := g, calls := calls s @ [(chunk, AcquireWait)]\<rparr>)"

definition transform_acquired :: "nat \<Rightarrow> transform \<Rightarrow> transform" where
  "transform_acquired k s =
     s\<lparr>calls := set_pc k AwaitWork (calls s),
       log := log s @ [Callback k,
                       WorkCalled k (work (get_field ''id'' (fst (calls s ! k))))]\<rparr>"

definition transform_worked :: "nat \<Rightarrow> int \<Rightarrow> transform \<Rightarrow> transform" where
  "transform_worked k t s =
     (let item = enrich (fst (calls s ! k)) t;
          s1 = push (k, item) (s\<lparr>log := log s @ [Settled k t, Pushed k item]\<rparr>);
          s2 = checkDone s1
      in s2\<lparr>calls := set_pc k Finished (calls s2)\<rparr>)"

subsection \<open>The stage on the event loop\<close>

text \<open>
  The jobs that the runtime can run.  The stream makes one call of \<^verbatim>\<open>_transform\<close> at a
  time, the next one after the callback of the one before; it calls \<^verbatim>\<open>_final\<close> once,
  after the callback of the last write, and makes no call of \<^verbatim>\<open>_transform\<close> after that.
  A suspended coroutine continues when what it waits for has happened.  The consumer of
  the readable side pauses and resumes it, and while it is flowing the buffered objects
  are emitted first in, first out.  An event that cannot happen in a state has no
  successor.
\<close>

datatype event =
    Write obj            \<comment> \<open>the stream calls \<^verbatim>\<open>_transform(chunk, encoding, callback)\<close>\<close>
  | ResumeAcquire nat    \<comment> \<open>the rest of \<^verbatim>\<open>acquire\<close> for waiter \<open>k\<close>\<close>
  | AfterAcquire nat     \<comment> \<open>call \<open>k\<close> continues after \<^verbatim>\<open>await this._semaphore.acquire()\<close>\<close>
  | WorkSettled nat int  \<comment> \<open>call \<open>k\<close> continues after \<^verbatim>\<open>await work(chunk.id)\<close> with the result\<close>
  | Final                \<comment> \<open>the stream calls \<^verbatim>\<open>_final(callback)\<close>\<close>
  | Flow                 \<comment> \<open>the readable side emits the first buffered object\<close>
  | Pause
  | Resume

definition past_callback :: "obj \<times> pc \<Rightarrow> bool" where
  "past_callback c = (snd c = AwaitWork \<or> snd c = Finished)"

definition at_pc :: "nat \<Rightarrow> pc \<Rightarrow> transform \<Rightarrow> bool" where
  "at_pc k p s = (k < length (calls s) \<and> snd (calls s ! k) = p)"

fun step :: "event \<Rightarrow> transform \<Rightarrow> transform option" where
  "step (Write chunk) s =
     (if \<not> onFinal s \<and> list_all past_callback (calls s)
      then Some (transform_begin chunk s) else None)"
| "step (ResumeAcquire k) s =
     (if at_pc k AcquireWoken s
      then Some (s\<lparr>semaphore := acquire_resume (semaphore s),
                   calls := set_pc k AcquireDone (calls s),
                   log := log s @ [Acquired k]\<rparr>)
      else None)"
| "step (AfterAcquire k) s =
     (if at_pc k AcquireDone s then Some (transform_acquired k s) else None)"
| "step (WorkSettled k t) s =
     (if at_pc k AwaitWork s then Some (transform_worked k t s) else None)"
| "step Final s =
     (if \<not> onFinal s \<and> list_all past_callback (calls s)
      then Some (final s) else None)"
| "step Flow s =
     (case buffer s of
        [] \<Rightarrow> None
      | x # xs \<Rightarrow> if flowing s then Some (emit_data x (s\<lparr>buffer := xs\<rparr>)) else None)"
| "step Pause s = Some (s\<lparr>flowing := False\<rparr>)"
| "step Resume s = Some (s\<lparr>flowing := True\<rparr>)"

fun run :: "event list \<Rightarrow> transform \<Rightarrow> transform option" where
  "run [] s = Some s"
| "run (e # es) s = (case step e s of None \<Rightarrow> None | Some s' \<Rightarrow> run es s')"

subsection \<open>Reading the log\<close>

text \<open>The objects pushed and the objects emitted, each with its call, in order.\<close>

fun pushes :: "action list \<Rightarrow> (nat \<times> obj) list" where
  "pushes [] = []"
| "pushes (Pushed k x # as) = (k, x) # pushes as"
| "pushes (_ # as) = pushes as"

fun emitted :: "action list \<Rightarrow> (nat \<times> obj) list" where
  "emitted [] = []"
| "emitted (Data k x # as) = (k, x) # emitted as"
| "emitted (_ # as) = emitted as"

text \<open>The results that the workers have delivered, each with its call, in order.\<close>

fun settled :: "action list \<Rightarrow> (nat \<times> int) list" where
  "settled [] = []"
| "settled (Settled k t # as) = (k, t) # settled as"
| "settled (_ # as) = settled as"

text \<open>The \<^verbatim>\<open>'data'\<close> events and the releases alone.\<close>

fun data_release :: "action list \<Rightarrow> action list" where
  "data_release [] = []"
| "data_release (Data k x # as) = Data k x # data_release as"
| "data_release (Released # as) = Released # data_release as"
| "data_release (_ # as) = data_release as"

text \<open>The statements of \<^verbatim>\<open>_transform\<close> executed for one call, by kind, in order.\<close>

datatype kind = KAcquired | KCallback | KWork | KSettled | KPushed

fun about :: "nat \<Rightarrow> action \<Rightarrow> kind option" where
  "about k (Acquired j) = (if j = k then Some KAcquired else None)"
| "about k (Callback j) = (if j = k then Some KCallback else None)"
| "about k (WorkCalled j a) = (if j = k then Some KWork else None)"
| "about k (Settled j t) = (if j = k then Some KSettled else None)"
| "about k (Pushed j x) = (if j = k then Some KPushed else None)"
| "about k _ = None"

definition item_events :: "nat \<Rightarrow> action list \<Rightarrow> kind list" where
  "item_events k as = List.map_filter (about k) as"

definition final_calls :: "action list \<Rightarrow> nat" where
  "final_calls as = length (filter (\<lambda>a. a = FinalCallback) as)"

text \<open>The chunks handed to \<^verbatim>\<open>_transform\<close> in a sequence of events, in order.\<close>

fun accepted :: "event list \<Rightarrow> obj list" where
  "accepted [] = []"
| "accepted (Write c # es) = c # accepted es"
| "accepted (_ # es) = accepted es"

subsection \<open>Invariants of the stage\<close>

text \<open>
  A call holds a slot of the gate from the moment \<^verbatim>\<open>this._running++\<close> has run for it
  until its object is emitted; while the call itself is running that is between the
  return of \<^verbatim>\<open>acquire\<close> and the push.
\<close>

fun holding :: "pc \<Rightarrow> bool" where
  "holding AcquireDone = True"
| "holding AwaitWork = True"
| "holding _ = False"

fun holders :: "(obj \<times> pc) list \<Rightarrow> int" where
  "holders [] = 0"
| "holders (c # cs) = (if holding (snd c) then 1 else 0) + holders cs"

text \<open>The statements a call has executed when it is at a given point.\<close>

fun stage :: "pc \<Rightarrow> kind list" where
  "stage AcquireWait = []"
| "stage AcquireWoken = []"
| "stage AcquireDone = [KAcquired]"
| "stage AwaitWork = [KAcquired, KCallback, KWork]"
| "stage Finished = [KAcquired, KCallback, KWork, KSettled, KPushed]"

text \<open>Every queued resolver belongs to a call suspended in \<^verbatim>\<open>acquire\<close>, once.\<close>

definition waiters_ok :: "transform \<Rightarrow> bool" where
  "waiters_ok s \<longleftrightarrow>
     distinct (resolvers (semaphore s)) \<and>
     (\<forall>w \<in> set (resolvers (semaphore s)). at_pc w AcquireWait s)"

text \<open>\<open>running\<close> counts the calls that hold a slot and the buffered objects.\<close>

definition counts_ok :: "transform \<Rightarrow> bool" where
  "counts_ok s \<longleftrightarrow> running (semaphore s) = holders (calls s) + int (length (buffer s))"

text \<open>When \<^verbatim>\<open>_final\<close> has been called, every call has had its callback.\<close>

definition final_ok :: "transform \<Rightarrow> bool" where
  "final_ok s \<longleftrightarrow> (onFinal s \<longrightarrow> list_all past_callback (calls s))"

text \<open>The completion callback is called only after \<^verbatim>\<open>_final\<close>, with \<open>running = 0\<close>.\<close>

definition closed_ok :: "transform \<Rightarrow> bool" where
  "closed_ok s \<longleftrightarrow>
     (FinalCallback \<in> set (log s) \<longrightarrow> onFinal s \<and> running (semaphore s) = 0)"

text \<open>The log holds, for every call, the statements up to its current point.\<close>

definition stage_ok :: "transform \<Rightarrow> bool" where
  "stage_ok s \<longleftrightarrow>
     (\<forall>k. item_events k (log s) =
            (if k < length (calls s) then stage (snd (calls s ! k)) else []))"

text \<open>
  What has been pushed is emitted or buffered, in order, and every emission is followed by
  its release.
\<close>

definition flow_ok :: "transform \<Rightarrow> bool" where
  "flow_ok s \<longleftrightarrow>
     pushes (log s) = emitted (log s) @ buffer s \<and>
     data_release (log s) =
       concat (map (\<lambda>x. [Data (fst x) (snd x), Released]) (emitted (log s)))"

text \<open>The calls that have pushed are the finished ones, each once, with its own chunk.\<close>

definition pushes_ok :: "transform \<Rightarrow> bool" where
  "pushes_ok s \<longleftrightarrow>
     distinct (map fst (pushes (log s))) \<and>
     (\<forall>k. k \<in> fst ` set (pushes (log s)) \<longleftrightarrow> at_pc k Finished s) \<and>
     (\<forall>k x. (k, x) \<in> set (pushes (log s)) \<longrightarrow>
        (\<exists>t. x = enrich (fst (calls s ! k)) t))"

text \<open>
  Only the newest call can still be before its callback (the stream waits for the callback
  before it hands over the next chunk).
\<close>

definition serial_ok :: "transform \<Rightarrow> bool" where
  "serial_ok s \<longleftrightarrow>
     (\<forall>k. k < length (calls s) \<and> \<not> past_callback (calls s ! k) \<longrightarrow> Suc k = length (calls s))"

text \<open>
  A woken waiter that has not resumed yet is about to increment \<open>running\<close>; counted with
  it, \<open>running\<close> stays within the size of the gate.
\<close>

definition woken :: "transform \<Rightarrow> int" where
  "woken s = (if list_ex (\<lambda>c. snd c = AcquireWoken) (calls s) then 1 else 0)"

definition bound_ok :: "transform \<Rightarrow> bool" where
  "bound_ok s \<longleftrightarrow> running (semaphore s) + woken s \<le> size_cap (semaphore s)"


definition inv :: "transform \<Rightarrow> bool" where
  "inv s \<longleftrightarrow>
     waiters_ok s \<and> counts_ok s \<and> final_ok s \<and> closed_ok s \<and> stage_ok s \<and>
     flow_ok s \<and> pushes_ok s"


section \<open>Properties of the generator\<close>

lemma gen_nexts_completed: "gen_nexts sz m GenCompleted = replicate m Done"
  by (induction m) simp_all

lemma gen_nexts_at_yield:
  "n + 1 + int j = sz \<Longrightarrow>
   gen_nexts sz (j + m) (GenAtYield n) =
     map (\<lambda>k. Value [(''id'', n + 1 + int k)]) [0..<j] @ replicate m Done"
proof (induction j arbitrary: n)
  case 0
  then show ?case
    by (cases m) (simp_all add: loop_test_def gen_nexts_completed)
next
  case (Suc j)
  from Suc.prems have lt: "n + 1 < sz" and nxt: "(n + 1) + 1 + int j = sz"
    by simp_all
  have shift: "map (\<lambda>k. Value [(''id'', n + 1 + int k)]) [0..<Suc j] =
      Value [(''id'', n + 1)] # map (\<lambda>k. Value [(''id'', (n + 1) + 1 + int k)]) [0..<j]"
    by (simp add: upt_rec [of 0 "Suc j"] map_Suc_upt [symmetric] del: upt_Suc)
  show ?case
    using lt Suc.IH [OF nxt] shift by (simp add: loop_test_def del: upt_Suc)
qed

text \<open>
  C10.  For every integer \<open>sz\<close>, the first \<open>sz\<close> calls of \<^verbatim>\<open>next()\<close> on \<^verbatim>\<open>generate(sz)\<close>
  yield the records \<^verbatim>\<open>{ id: 0 }\<close>, \<^verbatim>\<open>{ id: 1 }\<close>, ..., \<^verbatim>\<open>{ id: sz - 1 }\<close> in this order, the
  \<open>k\<close>-th being \<^verbatim>\<open>{ id: k }\<close>, and every later call answers \<open>Done\<close>, which is not a
  value.  (A size below zero yields nothing.)
\<close>

theorem generate_yields_ids_in_order:
  "gen_nexts sz (nat sz + m) GenStart =
     map (\<lambda>k. Value [(''id'', int k)]) [0..<nat sz] @ replicate m Done"
proof (cases "0 < sz")
  case False
  then show ?thesis
    by (cases m) (simp_all add: loop_test_def gen_nexts_completed)
next
  case True
  then obtain j where j: "nat sz = Suc j"
    by (cases "nat sz") simp_all
  with True have sz: "0 + 1 + int j = sz" by linarith
  have shift: "map (\<lambda>k. Value [(''id'', int k)]) [0..<Suc j] =
      Value [(''id'', 0)] # map (\<lambda>k. Value [(''id'', 0 + 1 + int k)]) [0..<j]"
    by (simp add: upt_rec [of 0 "Suc j"] map_Suc_upt [symmetric] del: upt_Suc)
  show ?thesis
    using True gen_nexts_at_yield [OF sz, of m] shift
    by (simp add: j loop_test_def del: upt_Suc)
qed

section \<open>The gate\<close>

lemma gate_step_no_release_resolvers:
  "e \<noteq> Release \<Longrightarrow> prefix (resolvers (sem s)) (resolvers (sem (gate_step s e)))"
  by (cases e) (simp_all add: acquire_def acquire_resume_def split: list.splits)

lemma gate_step_no_release_jobs:
  "e \<noteq> Release \<Longrightarrow> suffix (jobs (gate_step s e)) (jobs s)"
  by (cases e) (simp_all add: acquire_def acquire_resume_def suffix_Cons split: list.splits)

lemma gate_run_no_release:
  "Release \<notin> set es \<Longrightarrow>
     prefix (resolvers (sem s)) (resolvers (sem (gate_run es s))) \<and>
     suffix (jobs (gate_run es s)) (jobs s)"
proof (induction es arbitrary: s)
  case Nil
  then show ?case by (simp add: gate_run_def)
next
  case (Cons e es)
  then have e: "e \<noteq> Release" and es: "Release \<notin> set es" by auto
  have run: "gate_run (e # es) s = gate_run es (gate_step s e)"
    by (simp add: gate_run_def)
  from Cons.IH [OF es, of "gate_step s e"]
  have p: "prefix (resolvers (sem (gate_step s e))) (resolvers (sem (gate_run (e # es) s)))"
    and q: "suffix (jobs (gate_run (e # es) s)) (jobs (gate_step s e))"
    by (simp_all add: run)
  from gate_step_no_release_resolvers [OF e, of s] p
  have "prefix (resolvers (sem s)) (resolvers (sem (gate_run (e # es) s)))"
    by (rule prefix_order.trans)
  moreover from q gate_step_no_release_jobs [OF e, of s]
  have "suffix (jobs (gate_run (e # es) s)) (jobs s)"
    by (rule suffix_order.trans)
  ultimately show ?case by simp
qed

lemma still_suspended:
  assumes "Release \<notin> set es" and "w \<in> set (resolvers (sem s))" and "w \<notin> set (jobs s)"
  shows "w \<in> set (resolvers (sem (gate_run es s))) \<and> w \<notin> set (jobs (gate_run es s))"
proof -
  from gate_run_no_release [OF assms(1), of s]
  have p: "prefix (resolvers (sem s)) (resolvers (sem (gate_run es s)))"
    and q: "suffix (jobs (gate_run es s)) (jobs s)"
    by simp_all
  from p assms(2) have "w \<in> set (resolvers (sem (gate_run es s)))"
    using set_mono_prefix by blast
  moreover from q assms(3) have "w \<notin> set (jobs (gate_run es s))"
    using set_mono_suffix by blast
  ultimately show ?thesis by simp
qed

text \<open>
  C5.  The contract of \<^verbatim>\<open>acquire\<close>.  A call made while \<open>running < size_cap\<close> increments
  \<open>running\<close> and returns at once, leaving the queue alone.  A call made while
  \<open>running \<ge> size_cap\<close> puts the caller at the back of the queue and suspends, leaving
  \<open>running\<close> alone; the caller stays in the queue, and is not scheduled, as long as no
  \<^verbatim>\<open>release\<close> happens; a \<^verbatim>\<open>release\<close> takes the caller at the front of the queue and
  schedules it; and once its continuation runs, \<open>running\<close> is incremented and the call
  returns.  The call has no failing outcome: \<open>Returned\<close> and \<open>Awaiting\<close> are the only
  results.
\<close>

theorem acquire_contract:
  "(running g < size_cap g \<longrightarrow>
      acquire w g = (g\<lparr>running := running g + 1\<rparr>, Returned)) \<and>
   (running g \<ge> size_cap g \<longrightarrow>
      acquire w g = (g\<lparr>resolvers := resolvers g @ [w]\<rparr>, Awaiting)) \<and>
   (Release \<notin> set es \<and> w \<in> set (resolvers (sem s)) \<and> w \<notin> set (jobs s) \<longrightarrow>
      w \<in> set (resolvers (sem (gate_run es s))) \<and> w \<notin> set (jobs (gate_run es s))) \<and>
   (resolvers (sem s) = w # rest \<longrightarrow>
      gate_step s Release =
        s\<lparr>sem := (sem s)\<lparr>running := running (sem s) - 1, resolvers := rest\<rparr>,
          jobs := jobs s @ [w]\<rparr>) \<and>
   (jobs s = w # ws \<longrightarrow>
      gate_step s Tick =
        s\<lparr>sem := (sem s)\<lparr>running := running (sem s) + 1\<rparr>, jobs := ws,
          admitted := admitted s @ [w]\<rparr>) \<and>
   snd (acquire w g) \<in> {Returned, Awaiting}"
proof -
  have a: "running g < size_cap g \<longrightarrow>
      acquire w g = (g\<lparr>running := running g + 1\<rparr>, Returned)"
    by (simp add: acquire_def acquire_resume_def)
  have b: "running g \<ge> size_cap g \<longrightarrow>
      acquire w g = (g\<lparr>resolvers := resolvers g @ [w]\<rparr>, Awaiting)"
    by (simp add: acquire_def)
  have c: "Release \<notin> set es \<and> w \<in> set (resolvers (sem s)) \<and> w \<notin> set (jobs s) \<longrightarrow>
      w \<in> set (resolvers (sem (gate_run es s))) \<and> w \<notin> set (jobs (gate_run es s))"
    using still_suspended by blast
  have d: "resolvers (sem s) = w # rest \<longrightarrow>
      gate_step s Release =
        s\<lparr>sem := (sem s)\<lparr>running := running (sem s) - 1, resolvers := rest\<rparr>,
          jobs := jobs s @ [w]\<rparr>"
    by (simp add: release_def)
  have e: "jobs s = w # ws \<longrightarrow>
      gate_step s Tick =
        s\<lparr>sem := (sem s)\<lparr>running := running (sem s) + 1\<rparr>, jobs := ws,
          admitted := admitted s @ [w]\<rparr>"
    by (simp add: acquire_resume_def)
  have f: "snd (acquire w g) \<in> {Returned, Awaiting}"
    by (simp add: acquire_def)
  from a b c d e f show ?thesis by blast
qed

text \<open>
  The contract on a gate of size 1: caller 0 is admitted at once, caller 1 is queued,
  stays queued while caller 2 asks as well, is scheduled by the release and admitted by
  its continuation.
\<close>

theorem acquire_contract_witness:
  "running (Semaphoreish 1) < size_cap (Semaphoreish 1) \<and>
   acquire 0 (Semaphoreish 1) = (\<lparr>running = 1, size_cap = 1, resolvers = []\<rparr>, Returned) \<and>
   running \<lparr>running = 1, size_cap = 1, resolvers = []\<rparr>
     \<ge> size_cap \<lparr>running = 1, size_cap = 1, resolvers = []\<rparr> \<and>
   acquire 1 \<lparr>running = 1, size_cap = 1, resolvers = []\<rparr>
     = (\<lparr>running = 1, size_cap = 1, resolvers = [1]\<rparr>, Awaiting) \<and>
   Release \<notin> set [Acquire 2] \<and>
   1 \<in> set (resolvers (sem (gate_run [Acquire 2]
          \<lparr>sem = \<lparr>running = 1, size_cap = 1, resolvers = [1]\<rparr>, jobs = [], admitted = [0]\<rparr>))) \<and>
   gate_step \<lparr>sem = \<lparr>running = 1, size_cap = 1, resolvers = [1]\<rparr>, jobs = [], admitted = [0]\<rparr>
       Release
     = \<lparr>sem = \<lparr>running = 0, size_cap = 1, resolvers = []\<rparr>, jobs = [1], admitted = [0]\<rparr> \<and>
   gate_step \<lparr>sem = \<lparr>running = 0, size_cap = 1, resolvers = []\<rparr>, jobs = [1], admitted = [0]\<rparr>
       Tick
     = \<lparr>sem = \<lparr>running = 1, size_cap = 1, resolvers = []\<rparr>, jobs = [], admitted = [0, 1]\<rparr>"
  using acquire_contract [of "Semaphoreish 1" 0 "[]" "gate_init 1" "[]" "[]"]
    acquire_contract [of "\<lparr>running = 1, size_cap = 1, resolvers = []\<rparr>" 1 "[Acquire 2]"
      "\<lparr>sem = \<lparr>running = 1, size_cap = 1, resolvers = [1]\<rparr>, jobs = [], admitted = [0]\<rparr>"
      "[]" "[]"]
    acquire_contract [of "Semaphoreish 1" 1 "[]"
      "\<lparr>sem = \<lparr>running = 0, size_cap = 1, resolvers = []\<rparr>, jobs = [1], admitted = [0]\<rparr>"
      "[]" "[]"]
  by (simp add: Semaphoreish_def)

text \<open>
  C8.  The claim that \<^verbatim>\<open>release\<close> detects a call without a matching \<^verbatim>\<open>acquire\<close> fails:
  on a new gate, which nobody holds, \<^verbatim>\<open>release\<close> returns normally and leaves
  \<open>running = -1\<close>.
\<close>

theorem release_unmatched_counterexample:
  "release (Semaphoreish 1) = (\<lparr>running = - 1, size_cap = 1, resolvers = []\<rparr>, None)"
  by (simp add: release_def Semaphoreish_def)

text \<open>
  C8, as the code has it.  \<^verbatim>\<open>release\<close> checks nothing: in every state of the gate,
  held or not, it returns with \<open>running\<close> one lower, the size unchanged and the queue
  shortened by its first entry, which is the one it reports as woken.
\<close>

theorem release_unconditional:
  "running (fst (release g)) = running g - 1 \<and>
   size_cap (fst (release g)) = size_cap g \<and>
   resolvers (fst (release g)) = tl (resolvers g) \<and>
   snd (release g) = (case resolvers g of [] \<Rightarrow> None | w # ws \<Rightarrow> Some w)"
  by (simp add: release_def split: list.splits)

text \<open>
  C1.  The capacity bound is broken on a gate of size 1 by five steps: caller 0 is
  admitted, caller 1 is queued, the release wakes caller 1 (its continuation waits in the
  job queue), caller 2 asks before that continuation runs and is admitted at once since
  \<open>running = 0 < 1\<close>, and then caller 1's continuation increments \<open>running\<close> without
  looking at it again: \<open>running = 2\<close> with size 1.
\<close>

theorem capacity_exceeded_by_late_waiter:
  "running (sem (gate_run [Acquire 0, Acquire 1, Release, Acquire 2, Tick] (gate_init 1))) = 2 \<and>
   size_cap (sem (gate_run [Acquire 0, Acquire 1, Release, Acquire 2, Tick] (gate_init 1))) = 1"
  by (simp add: gate_run_def gate_init_def Semaphoreish_def acquire_def acquire_resume_def
      release_def)

text \<open>
  C3.  On the same five steps the order of admission is 0, 2, 1: caller 2, who asked after
  the release, is admitted before caller 1, who was suspended first and was the one the
  release woke.
\<close>

theorem late_acquirer_overtakes_waiter:
  "admitted (gate_run [Acquire 0, Acquire 1, Release, Acquire 2, Tick] (gate_init 1)) = [0, 2, 1]"
  by (simp add: gate_run_def gate_init_def Semaphoreish_def acquire_def acquire_resume_def
      release_def)

section \<open>The transform stage: invariants\<close>


subsection \<open>Effects of the primitives, field by field\<close>

lemma release_fields [simp]:
  "running (fst (release g)) = running g - 1"
  "size_cap (fst (release g)) = size_cap g"
  "resolvers (fst (release g)) = tl (resolvers g)"
  by (simp_all add: release_def Let_def split: list.splits)

lemma release_woken:
  "snd (release g) = (case resolvers g of [] \<Rightarrow> None | w # ws \<Rightarrow> Some w)"
  by (simp add: release_def Let_def split: list.splits)

lemma acquire_resume_fields [simp]:
  "running (acquire_resume g) = running g + 1"
  "size_cap (acquire_resume g) = size_cap g"
  "resolvers (acquire_resume g) = resolvers g"
  by (simp_all add: acquire_resume_def)

lemma checkDone_fields [simp]:
  "semaphore (checkDone s) = semaphore s"
  "onFinal (checkDone s) = onFinal s"
  "calls (checkDone s) = calls s"
  "flowing (checkDone s) = flowing s"
  "buffer (checkDone s) = buffer s"
  by (simp_all add: checkDone_def)

lemma checkDone_log:
  "log (checkDone s) =
     log s @ (if running (semaphore s) = 0 \<and> onFinal s then [FinalCallback] else [])"
  by (simp add: checkDone_def)

lemma on_data_fields [simp]:
  "semaphore (on_data s) = fst (release (semaphore s))"
  "onFinal (on_data s) = onFinal s"
  "calls (on_data s) = wake (snd (release (semaphore s))) (calls s)"
  "flowing (on_data s) = flowing s"
  "buffer (on_data s) = buffer s"
  by (simp_all add: on_data_def case_prod_beta)

lemma on_data_log:
  "log (on_data s) =
     log s @ Released #
       (if running (semaphore s) - 1 = 0 \<and> onFinal s then [FinalCallback] else [])"
  by (simp add: on_data_def checkDone_def case_prod_beta)

lemma emit_data_fields [simp]:
  "semaphore (emit_data x s) = fst (release (semaphore s))"
  "onFinal (emit_data x s) = onFinal s"
  "calls (emit_data x s) = wake (snd (release (semaphore s))) (calls s)"
  "flowing (emit_data x s) = flowing s"
  "buffer (emit_data x s) = buffer s"
  by (simp_all add: emit_data_def)

lemma emit_data_log:
  "log (emit_data x s) =
     log s @ Data (fst x) (snd x) # Released #
       (if running (semaphore s) - 1 = 0 \<and> onFinal s then [FinalCallback] else [])"
  by (simp add: emit_data_def on_data_log)

lemma set_pc_length [simp]: "length (set_pc k p cs) = length cs"
  by (simp add: set_pc_def)

lemma set_pc_nth:
  "j < length cs \<Longrightarrow>
     set_pc k p cs ! j = (if j = k then (fst (cs ! j), p) else cs ! j)"
  by (simp add: set_pc_def)

lemma wake_length [simp]: "length (wake r cs) = length cs"
  by (simp add: wake_def split: option.splits)

lemma wake_nth:
  "j < length cs \<Longrightarrow>
     wake r cs ! j = (if r = Some j then (fst (cs ! j), AcquireWoken) else cs ! j)"
  by (auto simp: wake_def set_pc_nth split: option.splits)

lemma push_fields [simp]:
  "semaphore (push x s) =
     (if flowing s \<and> buffer s = [] then fst (release (semaphore s)) else semaphore s)"
  "onFinal (push x s) = onFinal s"
  "calls (push x s) =
     (if flowing s \<and> buffer s = [] then wake (snd (release (semaphore s))) (calls s)
      else calls s)"
  "flowing (push x s) = flowing s"
  "buffer (push x s) = (if flowing s \<and> buffer s = [] then [] else buffer s @ [x])"
  by (simp_all add: push_def)

lemma push_log:
  "log (push x s) =
     (if flowing s \<and> buffer s = [] then log (emit_data x s) else log s)"
  by (simp add: push_def)

lemma final_fields [simp]:
  "semaphore (final s) = semaphore s"
  "onFinal (final s) = True"
  "calls (final s) = calls s"
  "flowing (final s) = flowing s"
  "buffer (final s) = buffer s"
  by (simp_all add: final_def)

lemma final_log:
  "log (final s) = log s @ (if running (semaphore s) = 0 then [FinalCallback] else [])"
  by (simp add: final_def checkDone_def)

lemma transform_begin_fields [simp]:
  "semaphore (transform_begin c s) = fst (acquire (length (calls s)) (semaphore s))"
  "onFinal (transform_begin c s) = onFinal s"
  "calls (transform_begin c s) =
     calls s @ [(c, if running (semaphore s) \<ge> size_cap (semaphore s)
                    then AcquireWait else AcquireDone)]"
  "flowing (transform_begin c s) = flowing s"
  "buffer (transform_begin c s) = buffer s"
  "log (transform_begin c s) =
     log s @ (if running (semaphore s) \<ge> size_cap (semaphore s)
              then [] else [Acquired (length (calls s))])"
  by (simp_all add: transform_begin_def acquire_def Let_def)

lemma acquire_fields [simp]:
  "running (fst (acquire w g)) = (if running g \<ge> size_cap g then running g else running g + 1)"
  "size_cap (fst (acquire w g)) = size_cap g"
  "resolvers (fst (acquire w g)) =
     (if running g \<ge> size_cap g then resolvers g @ [w] else resolvers g)"
  by (simp_all add: acquire_def acquire_resume_def)

lemma transform_acquired_fields [simp]:
  "semaphore (transform_acquired k s) = semaphore s"
  "onFinal (transform_acquired k s) = onFinal s"
  "calls (transform_acquired k s) = set_pc k AwaitWork (calls s)"
  "flowing (transform_acquired k s) = flowing s"
  "buffer (transform_acquired k s) = buffer s"
  "log (transform_acquired k s) =
     log s @ [Callback k, WorkCalled k (work (get_field ''id'' (fst (calls s ! k))))]"
  by (simp_all add: transform_acquired_def)

lemma transform_worked_fields [simp]:
  "semaphore (transform_worked k t s) =
     (if flowing s \<and> buffer s = [] then fst (release (semaphore s)) else semaphore s)"
  "onFinal (transform_worked k t s) = onFinal s"
  "calls (transform_worked k t s) =
     set_pc k Finished
       (if flowing s \<and> buffer s = [] then wake (snd (release (semaphore s))) (calls s)
        else calls s)"
  "flowing (transform_worked k t s) = flowing s"
  "buffer (transform_worked k t s) =
     (if flowing s \<and> buffer s = [] then [] else buffer s @ [(k, enrich (fst (calls s ! k)) t)])"
  by (simp_all add: transform_worked_def Let_def)

lemma transform_worked_log:
  "log (transform_worked k t s) =
     log s @ Settled k t # Pushed k (enrich (fst (calls s ! k)) t) #
       (if flowing s \<and> buffer s = []
        then Data k (enrich (fst (calls s ! k)) t) # Released #
             (if running (semaphore s) - 1 = 0 \<and> onFinal s
              then [FinalCallback, FinalCallback] else [])
        else (if running (semaphore s) = 0 \<and> onFinal s then [FinalCallback] else []))"
  by (simp add: transform_worked_def Let_def checkDone_log push_log emit_data_log)

subsection \<open>Waiters\<close>

lemma at_pc_set_pc:
  "at_pc j p (s\<lparr>calls := set_pc k q (calls s)\<rparr>) \<longleftrightarrow>
     (if j = k then k < length (calls s) \<and> p = q else at_pc j p s)"
  by (auto simp: at_pc_def set_pc_nth)

lemma waiters_ok_step:
  assumes "waiters_ok s" and "step e s = Some s'"
  shows "waiters_ok s'"
proof (cases e)
  case (Write c)
  with assms show ?thesis
    by (auto simp: waiters_ok_def at_pc_def nth_append split: if_splits) (meson less_SucI)+
next
  case (ResumeAcquire k)
  with assms show ?thesis
    by (auto simp: waiters_ok_def at_pc_def set_pc_nth split: if_splits)
next
  case (AfterAcquire k)
  with assms show ?thesis
    by (auto simp: waiters_ok_def at_pc_def set_pc_nth split: if_splits)
next
  case (WorkSettled k t)
  with assms show ?thesis
    by (cases "resolvers (semaphore s)")
       (auto simp: waiters_ok_def at_pc_def set_pc_nth wake_nth release_woken
          split: if_splits list.splits)
next
  case Final
  with assms show ?thesis
    by (auto simp: waiters_ok_def at_pc_def split: if_splits)
next
  case Flow
  with assms show ?thesis
    by (cases "resolvers (semaphore s)")
       (auto simp: waiters_ok_def at_pc_def set_pc_nth wake_nth release_woken
          split: if_splits list.splits)
next
  case Pause
  with assms show ?thesis
    by (auto simp: waiters_ok_def at_pc_def)
next
  case Resume
  with assms show ?thesis
    by (auto simp: waiters_ok_def at_pc_def)
qed

subsection \<open>Holders\<close>

lemma holders_append [simp]:
  "holders (cs @ [c]) = holders cs + (if holding (snd c) then 1 else 0)"
  by (induction cs) simp_all

lemma holders_update:
  "k < length cs \<Longrightarrow>
     holders (cs[k := c]) =
       holders cs - (if holding (snd (cs ! k)) then 1 else 0)
                  + (if holding (snd c) then 1 else 0)"
proof (induction cs arbitrary: k)
  case Nil
  then show ?case by simp
next
  case (Cons a cs)
  show ?case
  proof (cases k)
    case 0
    then show ?thesis by simp
  next
    case (Suc j)
    with Cons.prems have "j < length cs" by simp
    from Cons.IH [OF this] Suc show ?thesis by simp
  qed
qed

lemma holders_set_pc:
  "k < length cs \<Longrightarrow>
     holders (set_pc k p cs) =
       holders cs - (if holding (snd (cs ! k)) then 1 else 0) + (if holding p then 1 else 0)"
  by (simp add: set_pc_def holders_update)

lemma holders_wake:
  "\<forall>w. r = Some w \<longrightarrow> w < length cs \<and> snd (cs ! w) = AcquireWait \<Longrightarrow>
     holders (wake r cs) = holders cs"
  by (cases r) (simp_all add: wake_def holders_set_pc)

lemma holders_nonneg: "0 \<le> holders cs"
  by (induction cs) simp_all

lemma holders_pos: "k < length cs \<Longrightarrow> holding (snd (cs ! k)) \<Longrightarrow> 1 \<le> holders cs"
proof (induction cs arbitrary: k)
  case Nil
  then show ?case by simp
next
  case (Cons c cs)
  show ?case
  proof (cases k)
    case 0
    with Cons.prems show ?thesis using holders_nonneg [of cs] by simp
  next
    case (Suc j)
    with Cons.prems have "1 \<le> holders cs" by (intro Cons.IH [of j]) simp_all
    then show ?thesis by simp
  qed
qed

lemma woken_waits:
  "waiters_ok s \<Longrightarrow>
     \<forall>w. snd (release (semaphore s)) = Some w \<longrightarrow>
         w < length (calls s) \<and> snd (calls s ! w) = AcquireWait"
  by (cases "resolvers (semaphore s)") (simp_all add: waiters_ok_def at_pc_def release_woken)

lemma counts_ok_step:
  assumes "counts_ok s" and "waiters_ok s" and "step e s = Some s'"
  shows "counts_ok s'"
proof (cases e)
  case (Write c)
  with assms show ?thesis
    by (auto simp: counts_ok_def split: if_splits)
next
  case (ResumeAcquire k)
  with assms show ?thesis
    by (auto simp: counts_ok_def at_pc_def holders_set_pc split: if_splits)
next
  case (AfterAcquire k)
  with assms show ?thesis
    by (auto simp: counts_ok_def at_pc_def holders_set_pc split: if_splits)
next
  case (WorkSettled k t)
  from woken_waits [OF assms(2)]
  have h: "holders (wake (snd (release (semaphore s))) (calls s)) = holders (calls s)"
    by (rule holders_wake)
  have n: "k < length (calls s) \<Longrightarrow> snd (calls s ! k) = AwaitWork \<Longrightarrow>
      snd (wake (snd (release (semaphore s))) (calls s) ! k) = AwaitWork"
    using woken_waits [OF assms(2)] by (auto simp: wake_nth)
  from WorkSettled assms n show ?thesis
    by (auto simp: counts_ok_def at_pc_def holders_set_pc h split: if_splits)
next
  case Final
  with assms show ?thesis
    by (auto simp: counts_ok_def split: if_splits)
next
  case Flow
  from woken_waits [OF assms(2)]
  have h: "holders (wake (snd (release (semaphore s))) (calls s)) = holders (calls s)"
    by (rule holders_wake)
  from Flow assms show ?thesis
    by (cases "buffer s") (auto simp: counts_ok_def h split: if_splits)
next
  case Pause
  with assms show ?thesis by (auto simp: counts_ok_def)
next
  case Resume
  with assms show ?thesis by (auto simp: counts_ok_def)
qed

subsection \<open>After \<^verbatim>\<open>_final\<close>\<close>

lemma no_waiter_after_final:
  assumes "waiters_ok s" and "list_all past_callback (calls s)"
  shows "snd (release (semaphore s)) = None"
proof (cases "resolvers (semaphore s)")
  case Nil
  then show ?thesis by (simp add: release_woken)
next
  case (Cons w ws)
  with assms(1) have "w < length (calls s)" and "snd (calls s ! w) = AcquireWait"
    by (simp_all add: waiters_ok_def at_pc_def)
  with assms(2) show ?thesis
    by (auto simp: list_all_length past_callback_def)
qed

lemma past_callback_set_pc:
  "list_all past_callback cs \<Longrightarrow> p = AwaitWork \<or> p = Finished \<Longrightarrow>
     list_all past_callback (set_pc k p cs)"
  by (auto simp: list_all_length set_pc_nth past_callback_def)

lemma final_ok_step:
  assumes "final_ok s" and "waiters_ok s" and "step e s = Some s'"
  shows "final_ok s'"
proof (cases e)
  case (Write c)
  with assms show ?thesis by (auto simp: final_ok_def split: if_splits)
next
  case (ResumeAcquire k)
  with assms show ?thesis
    by (auto simp: final_ok_def at_pc_def list_all_length past_callback_def split: if_splits)
next
  case (AfterAcquire k)
  with assms show ?thesis
    by (auto simp: final_ok_def at_pc_def past_callback_set_pc split: if_splits)
next
  case (WorkSettled k t)
  with assms show ?thesis
    by (auto simp: final_ok_def at_pc_def past_callback_set_pc no_waiter_after_final wake_def
        split: if_splits)
next
  case Final
  with assms show ?thesis by (auto simp: final_ok_def split: if_splits)
next
  case Flow
  with assms show ?thesis
    by (cases "buffer s")
       (auto simp: final_ok_def no_waiter_after_final wake_def split: if_splits)
next
  case Pause
  with assms show ?thesis by (auto simp: final_ok_def)
next
  case Resume
  with assms show ?thesis by (auto simp: final_ok_def)
qed

lemma drained:
  assumes "counts_ok s" and "running (semaphore s) = 0"
  shows "buffer s = []" and "holders (calls s) = 0"
proof -
  from assms have "holders (calls s) + int (length (buffer s)) = 0"
    by (simp add: counts_ok_def)
  with holders_nonneg [of "calls s"]
  have "length (buffer s) = 0" and "holders (calls s) = 0" by linarith+
  then show "buffer s = []" and "holders (calls s) = 0" by simp_all
qed

lemma closed_ok_step:
  assumes "closed_ok s" and "counts_ok s" and "final_ok s" and "step e s = Some s'"
  shows "closed_ok s'"
proof (cases "FinalCallback \<in> set (log s)")
  case True
  with assms(1) have f: "onFinal s" and r: "running (semaphore s) = 0"
    by (simp_all add: closed_ok_def)
  from drained [OF assms(2) r] have b: "buffer s = []" and h: "holders (calls s) = 0"
    by simp_all
  from f assms(3) have p: "list_all past_callback (calls s)"
    by (simp add: final_ok_def)
  have nh: "k < length (calls s) \<Longrightarrow> \<not> holding (snd (calls s ! k))" for k
    using holders_pos [of k "calls s"] h by auto
  show ?thesis
  proof (cases e)
    case (Write c)
    with assms(4) f show ?thesis by simp
  next
    case (ResumeAcquire k)
    with assms(4) p show ?thesis
      by (auto simp: at_pc_def list_all_length past_callback_def split: if_splits)
  next
    case (AfterAcquire k)
    with assms(4) nh [of k] show ?thesis
      by (auto simp: at_pc_def split: if_splits)
  next
    case (WorkSettled k t)
    with assms(4) nh [of k] show ?thesis
      by (auto simp: at_pc_def split: if_splits)
  next
    case Final
    with assms(4) f show ?thesis by simp
  next
    case Flow
    with assms(4) b show ?thesis by simp
  next
    case Pause
    with assms(4) True f r show ?thesis by (auto simp: closed_ok_def)
  next
    case Resume
    with assms(4) True f r show ?thesis by (auto simp: closed_ok_def)
  qed
next
  case False
  show ?thesis
  proof (cases e)
    case (Write c)
    with assms(4) False show ?thesis
      by (auto simp: closed_ok_def split: if_splits)
  next
    case (ResumeAcquire k)
    with assms(4) False show ?thesis
      by (auto simp: closed_ok_def split: if_splits)
  next
    case (AfterAcquire k)
    with assms(4) False show ?thesis
      by (auto simp: closed_ok_def split: if_splits)
  next
    case (WorkSettled k t)
    with assms(4) False show ?thesis
      by (auto simp: closed_ok_def transform_worked_log split: if_splits)
  next
    case Final
    with assms(4) False show ?thesis
      by (auto simp: closed_ok_def final_log split: if_splits)
  next
    case Flow
    with assms(4) False show ?thesis
      by (cases "buffer s") (auto simp: closed_ok_def emit_data_log split: if_splits)
  next
    case Pause
    with assms(4) False show ?thesis by (auto simp: closed_ok_def)
  next
    case Resume
    with assms(4) False show ?thesis by (auto simp: closed_ok_def)
  qed
qed

subsection \<open>Reading the log\<close>

lemma pushes_append [simp]: "pushes (as @ bs) = pushes as @ pushes bs"
  by (induction as rule: pushes.induct) simp_all

lemma emitted_append [simp]: "emitted (as @ bs) = emitted as @ emitted bs"
  by (induction as rule: emitted.induct) simp_all

lemma data_release_append [simp]:
  "data_release (as @ bs) = data_release as @ data_release bs"
  by (induction as rule: data_release.induct) simp_all

lemma item_events_Nil [simp]: "item_events k [] = []"
  by (simp add: item_events_def)

lemma item_events_Cons [simp]:
  "item_events k (a # as) =
     (case about k a of None \<Rightarrow> item_events k as | Some x \<Rightarrow> x # item_events k as)"
  by (simp add: item_events_def map_filter_simps split: option.splits)

lemma item_events_append [simp]:
  "item_events k (as @ bs) = item_events k as @ item_events k bs"
  by (induction as) (simp_all split: option.splits)

subsection \<open>The statements of one call\<close>

lemma stage_wake:
  assumes "waiters_ok s" and "j < length (calls s)"
  shows "stage (snd (wake (snd (release (semaphore s))) (calls s) ! j)) =
         stage (snd (calls s ! j))"
  using woken_waits [OF assms(1)] assms(2) by (auto simp: wake_nth)

lemma stage_ok_step:
  assumes "stage_ok s" and "waiters_ok s" and "step e s = Some s'"
  shows "stage_ok s'"
  unfolding stage_ok_def
proof
  fix j
  from assms(1) have old: "item_events j (log s) =
      (if j < length (calls s) then stage (snd (calls s ! j)) else [])"
    by (simp add: stage_ok_def)
  show "item_events j (log s') =
      (if j < length (calls s') then stage (snd (calls s' ! j)) else [])"
  proof (cases e)
    case (Write c)
    with assms(3) old show ?thesis
      by (auto simp: nth_append split: if_splits)
  next
    case (ResumeAcquire k)
    with assms(3) old show ?thesis
      by (auto simp: at_pc_def set_pc_nth split: if_splits)
  next
    case (AfterAcquire k)
    with assms(3) old show ?thesis
      by (auto simp: at_pc_def set_pc_nth split: if_splits)
  next
    case (WorkSettled k t)
    with assms(3) old stage_wake [OF assms(2), of j] stage_wake [OF assms(2), of k]
    show ?thesis
      by (auto simp: at_pc_def set_pc_nth transform_worked_log split: if_splits)
  next
    case Final
    with assms(3) old show ?thesis
      by (auto simp: final_log split: if_splits)
  next
    case Flow
    with assms(3) old stage_wake [OF assms(2), of j] show ?thesis
      by (cases "buffer s") (auto simp: emit_data_log split: if_splits)
  next
    case Pause
    with assms(3) old show ?thesis by auto
  next
    case Resume
    with assms(3) old show ?thesis by auto
  qed
qed

subsection \<open>Pushes and emissions\<close>

lemma flow_ok_step:
  assumes "flow_ok s" and "step e s = Some s'"
  shows "flow_ok s'"
proof (cases e)
  case (Write c)
  with assms show ?thesis by (auto simp: flow_ok_def split: if_splits)
next
  case (ResumeAcquire k)
  with assms show ?thesis by (auto simp: flow_ok_def split: if_splits)
next
  case (AfterAcquire k)
  with assms show ?thesis by (auto simp: flow_ok_def split: if_splits)
next
  case (WorkSettled k t)
  with assms show ?thesis
    by (auto simp: flow_ok_def transform_worked_log split: if_splits)
next
  case Final
  with assms show ?thesis by (auto simp: flow_ok_def final_log split: if_splits)
next
  case Flow
  with assms show ?thesis
    by (cases "buffer s") (auto simp: flow_ok_def emit_data_log split: if_splits)
next
  case Pause
  with assms show ?thesis by (auto simp: flow_ok_def)
next
  case Resume
  with assms show ?thesis by (auto simp: flow_ok_def)
qed

lemma wake_fst: "j < length cs \<Longrightarrow> fst (wake r cs ! j) = fst (cs ! j)"
  by (simp add: wake_nth)

lemma wake_keeps:
  assumes "waiters_ok s" and "j < length (calls s)"
  shows "snd (wake (snd (release (semaphore s))) (calls s) ! j) = Finished \<longleftrightarrow>
         snd (calls s ! j) = Finished"
  using woken_waits [OF assms(1)] assms(2) by (auto simp: wake_nth)

lemma pushes_ok_step:
  assumes "pushes_ok s" and "waiters_ok s" and "step e s = Some s'"
  shows "pushes_ok s'"
proof -
  from assms(1) have d: "distinct (map fst (pushes (log s)))"
    and m: "\<And>k. k \<in> fst ` set (pushes (log s)) \<longleftrightarrow> at_pc k Finished s"
    and x: "\<And>k x. (k, x) \<in> set (pushes (log s)) \<Longrightarrow>
              \<exists>t. x = enrich (fst (calls s ! k)) t"
    by (simp_all add: pushes_ok_def)
  have lt: "(k, x) \<in> set (pushes (log s)) \<Longrightarrow> k < length (calls s)" for k x
    using m [of k] by (force simp: at_pc_def)
  show ?thesis
  proof (cases e)
    case (Write c)
    with assms(3) have s': "s' = transform_begin c s" by (simp split: if_splits)
    have "at_pc k Finished s' \<longleftrightarrow> at_pc k Finished s" for k
      by (auto simp: s' at_pc_def nth_append)
    with d m x lt show ?thesis
      unfolding pushes_ok_def by (auto simp: s' nth_append)
  next
    case (ResumeAcquire k)
    with assms(3) have a: "at_pc k AcquireWoken s"
      and l: "log s' = log s @ [Acquired k]"
      and c: "calls s' = set_pc k AcquireDone (calls s)"
      by (auto split: if_splits)
    have "at_pc j Finished s' \<longleftrightarrow> at_pc j Finished s" for j
      using a by (auto simp: c at_pc_def set_pc_nth split: if_splits)
    moreover have "j < length (calls s) \<Longrightarrow> fst (calls s' ! j) = fst (calls s ! j)" for j
      by (simp add: c set_pc_nth)
    ultimately show ?thesis
      using d m x lt unfolding pushes_ok_def by (auto simp: l)
  next
    case (AfterAcquire k)
    with assms(3) have a: "at_pc k AcquireDone s"
      and l: "pushes (log s') = pushes (log s)"
      and c: "calls s' = set_pc k AwaitWork (calls s)"
      by (auto split: if_splits)
    have "at_pc j Finished s' \<longleftrightarrow> at_pc j Finished s" for j
      using a by (auto simp: c at_pc_def set_pc_nth split: if_splits)
    moreover have "j < length (calls s) \<Longrightarrow> fst (calls s' ! j) = fst (calls s ! j)" for j
      by (simp add: c set_pc_nth)
    ultimately show ?thesis
      using d m x lt unfolding pushes_ok_def by (auto simp: l)
  next
    case (WorkSettled k t)
    with assms(3) have a: "at_pc k AwaitWork s" and s': "s' = transform_worked k t s"
      by (auto split: if_splits)
    have l: "pushes (log s') = pushes (log s) @ [(k, enrich (fst (calls s ! k)) t)]"
      by (simp add: s' transform_worked_log)
    have f: "at_pc j Finished s' \<longleftrightarrow> j = k \<or> at_pc j Finished s" for j
      using a wake_keeps [OF assms(2), of j]
      by (auto simp: s' at_pc_def set_pc_nth)
    have c: "j < length (calls s) \<Longrightarrow> fst (calls s' ! j) = fst (calls s ! j)" for j
      by (simp add: s' set_pc_nth wake_fst)
    from a m [of k] have nk: "k \<notin> fst ` set (pushes (log s))"
      by (simp add: at_pc_def)
    from a have kl: "k < length (calls s)" by (simp add: at_pc_def)
    show ?thesis
      unfolding pushes_ok_def
    proof (intro conjI allI impI)
      show "distinct (map fst (pushes (log s')))"
        using d nk by (simp add: l)
      show "k' \<in> fst ` set (pushes (log s')) \<longleftrightarrow> at_pc k' Finished s'" for k'
        using m [of k'] by (auto simp: l f)
      show "\<exists>t. x' = enrich (fst (calls s' ! k')) t"
        if "(k', x') \<in> set (pushes (log s'))" for k' x'
        using that x [of k' x'] lt [of k' x'] c [of k'] kl by (auto simp: l)
    qed
  next
    case Final
    with assms(3) have "pushes (log s') = pushes (log s)" and "calls s' = calls s"
      by (auto simp: final_log split: if_splits)
    with assms(1) show ?thesis by (simp add: pushes_ok_def at_pc_def)
  next
    case Flow
    with assms(3) obtain b bs where s': "s' = emit_data b (s\<lparr>buffer := bs\<rparr>)"
      by (cases "buffer s") (auto split: if_splits)
    have w: "waiters_ok (s\<lparr>buffer := bs\<rparr>)"
      using assms(2) by (simp add: waiters_ok_def at_pc_def)
    have l: "pushes (log s') = pushes (log s)"
      by (simp add: s' emit_data_log)
    have f: "at_pc j Finished s' \<longleftrightarrow> at_pc j Finished s" for j
      using wake_keeps [OF w, of j] by (auto simp: s' at_pc_def)
    have c: "j < length (calls s) \<Longrightarrow> fst (calls s' ! j) = fst (calls s ! j)" for j
      by (simp add: s' wake_fst)
    show ?thesis
      using d m x lt c unfolding pushes_ok_def by (auto simp: l f)
  next
    case Pause
    with assms(3) have "log s' = log s" and "calls s' = calls s" by auto
    with assms(1) show ?thesis by (simp add: pushes_ok_def at_pc_def)
  next
    case Resume
    with assms(3) have "log s' = log s" and "calls s' = calls s" by auto
    with assms(1) show ?thesis by (simp add: pushes_ok_def at_pc_def)
  qed
qed


subsection \<open>Reachable states\<close>

lemma inv_init: "inv (ConcurrentTransform hwm)"
  by (simp add: inv_def ConcurrentTransform_def Semaphoreish_def waiters_ok_def counts_ok_def
      final_ok_def closed_ok_def stage_ok_def flow_ok_def pushes_ok_def at_pc_def)

lemma inv_step:
  assumes "inv s" and "step e s = Some s'"
  shows "inv s'"
proof -
  from assms(1) have w: "waiters_ok s" and c: "counts_ok s" and f: "final_ok s"
    and d: "closed_ok s" and g: "stage_ok s" and l: "flow_ok s" and p: "pushes_ok s"
    by (simp_all add: inv_def)
  note st = assms(2)
  show ?thesis
    unfolding inv_def
    using waiters_ok_step [OF w st] counts_ok_step [OF c w st] final_ok_step [OF f w st]
      closed_ok_step [OF d c f st] stage_ok_step [OF g w st] flow_ok_step [OF l st]
      pushes_ok_step [OF p w st]
    by simp
qed

lemma inv_run: "inv s \<Longrightarrow> run es s = Some s' \<Longrightarrow> inv s'"
proof (induction es arbitrary: s)
  case Nil
  then show ?case by simp
next
  case (Cons e es)
  then obtain s1 where e: "step e s = Some s1" and es: "run es s1 = Some s'"
    by (auto split: option.splits)
  from inv_step [OF Cons.prems(1) e] es show ?case by (rule Cons.IH)
qed

lemma reachable_inv: "run es (ConcurrentTransform hwm) = Some s \<Longrightarrow> inv s"
  using inv_init inv_run by blast

subsection \<open>The accepted chunks\<close>

lemma set_pc_chunks [simp]: "map fst (set_pc k p cs) = map fst cs"
  by (simp add: set_pc_def map_update list_update_same_conv)

lemma wake_chunks [simp]: "map fst (wake r cs) = map fst cs"
  by (simp add: wake_def split: option.splits)

lemma step_chunks:
  "step e s = Some s' \<Longrightarrow> map fst (calls s') = map fst (calls s) @ accepted [e]"
  by (cases e; cases "buffer s") (auto split: if_splits)

lemma accepted_Cons: "accepted (e # es) = accepted [e] @ accepted es"
  by (cases e) simp_all

lemma run_chunks:
  "run es s = Some s' \<Longrightarrow> map fst (calls s') = map fst (calls s) @ accepted es"
proof (induction es arbitrary: s)
  case Nil
  then show ?case by simp
next
  case (Cons e es)
  then obtain s1 where e: "step e s = Some s1" and es: "run es s1 = Some s'"
    by (auto split: option.splits)
  from Cons.IH [OF es] step_chunks [OF e] show ?case
    by (simp add: accepted_Cons [of e es])
qed

lemma reachable_chunks:
  "run es (ConcurrentTransform hwm) = Some s \<Longrightarrow> map fst (calls s) = accepted es"
  using run_chunks [of es "ConcurrentTransform hwm" s] by (simp add: ConcurrentTransform_def)

lemma reachable_chunk:
  assumes "run es (ConcurrentTransform hwm) = Some s" and "k < length (calls s)"
  shows "fst (calls s ! k) = accepted es ! k"
proof -
  from assms(2) have "fst (calls s ! k) = map fst (calls s) ! k" by simp
  with reachable_chunks [OF assms(1)] show ?thesis by simp
qed

subsection \<open>Fields\<close>



subsection \<open>When the completion callback has been called\<close>

lemma all_finished:
  assumes "inv s" and "FinalCallback \<in> set (log s)" and "k < length (calls s)"
  shows "snd (calls s ! k) = Finished"
proof -
  from assms(1,2) have f: "onFinal s" and r: "running (semaphore s) = 0"
    by (simp_all add: inv_def closed_ok_def)
  from assms(1) have c: "counts_ok s" by (simp add: inv_def)
  from drained(2) [OF c r] holders_pos [OF assms(3)]
  have "\<not> holding (snd (calls s ! k))" by auto
  moreover from assms(1) f assms(3) have "past_callback (calls s ! k)"
    by (simp add: inv_def final_ok_def list_all_length)
  ultimately show ?thesis by (auto simp: past_callback_def)
qed

lemmas run_defs =
  ConcurrentTransform_def Semaphoreish_def transform_begin_def acquire_def acquire_resume_def
  at_pc_def transform_acquired_def transform_worked_def push_def emit_data_def on_data_def
  release_def checkDone_def set_pc_def wake_def enrich_def work_def get_field_def
  past_callback_def final_def Let_def

subsection \<open>The gate inside the stage\<close>


lemma serial_ok_step:
  assumes "serial_ok s" and "waiters_ok s" and "step e s = Some s'"
  shows "serial_ok s'"
proof (cases e)
  case (Write c)
  with assms show ?thesis
    by (auto simp: serial_ok_def list_all_length nth_append split: if_splits)
next
  case (ResumeAcquire k)
  with assms show ?thesis
    by (auto simp: serial_ok_def at_pc_def set_pc_nth past_callback_def split: if_splits)
next
  case (AfterAcquire k)
  with assms show ?thesis
    by (auto simp: serial_ok_def at_pc_def set_pc_nth past_callback_def split: if_splits)
next
  case (WorkSettled k t)
  with assms woken_waits [OF assms(2)] show ?thesis
    by (auto simp: serial_ok_def at_pc_def set_pc_nth wake_nth past_callback_def
        split: if_splits)
next
  case Final
  with assms show ?thesis by (auto simp: serial_ok_def split: if_splits)
next
  case Flow
  with assms woken_waits [OF assms(2)] show ?thesis
    by (cases "buffer s")
       (auto simp: serial_ok_def wake_nth past_callback_def split: if_splits)
next
  case Pause
  with assms show ?thesis by (auto simp: serial_ok_def)
next
  case Resume
  with assms show ?thesis by (auto simp: serial_ok_def)
qed

lemma woken_iff:
  "woken s = (if \<exists>k. at_pc k AcquireWoken s then 1 else 0)"
  by (auto simp: woken_def at_pc_def list_ex_length)

lemma woken_after_wake:
  assumes "waiters_ok s" and "serial_ok s"
  shows "running (fst (release (semaphore s))) +
           woken (s\<lparr>semaphore := g, calls := wake (snd (release (semaphore s))) (calls s)\<rparr>)
         \<le> running (semaphore s) + woken s"
proof (cases "snd (release (semaphore s))")
  case None
  then show ?thesis by (simp add: woken_def wake_def)
next
  case (Some w)
  then show ?thesis by (simp add: woken_def)
qed

lemma woken_set_pc_other:
  assumes "k < length cs" and "snd (cs ! k) \<noteq> AcquireWoken" and "p \<noteq> AcquireWoken"
  shows "list_ex (\<lambda>c. snd c = AcquireWoken) (set_pc k p cs) \<longleftrightarrow>
         list_ex (\<lambda>c. snd c = AcquireWoken) cs"
  using assms by (auto simp: list_ex_length set_pc_nth split: if_splits)

lemma woken_bounds: "0 \<le> woken s" "woken s \<le> 1"
  by (simp_all add: woken_def)

lemma bound_ok_step:
  assumes "bound_ok s" and "waiters_ok s" and "serial_ok s" and "step e s = Some s'"
  shows "bound_ok s'"
proof (cases e)
  case (Write c)
  with assms(4) have g: "list_all past_callback (calls s)" and s': "s' = transform_begin c s"
    by (auto split: if_splits)
  from g have "woken s = 0"
    by (auto simp: woken_def list_ex_length list_all_length past_callback_def)
  moreover from g have "woken s' = 0"
    by (auto simp: s' woken_def list_ex_length list_all_length past_callback_def nth_append)
  ultimately show ?thesis
    using assms(1) by (auto simp: bound_ok_def s')
next
  case (ResumeAcquire k)
  with assms(4) have a: "at_pc k AcquireWoken s"
    and sm: "semaphore s' = acquire_resume (semaphore s)"
    and c: "calls s' = set_pc k AcquireDone (calls s)"
    by (auto split: if_splits)
  from a have w: "woken s = 1" by (auto simp: woken_iff)
  have "\<not> at_pc j AcquireWoken s'" for j
  proof
    assume j: "at_pc j AcquireWoken s'"
    then have "j \<noteq> k" using a by (auto simp: c at_pc_def set_pc_nth)
    with j have "at_pc j AcquireWoken s" by (auto simp: c at_pc_def set_pc_nth)
    with assms(3) have "Suc j = length (calls s)"
      by (simp add: serial_ok_def at_pc_def past_callback_def)
    moreover from assms(3) a have "Suc k = length (calls s)"
      by (simp add: serial_ok_def at_pc_def past_callback_def)
    ultimately show False using \<open>j \<noteq> k\<close> by simp
  qed
  then have "woken s' = 0" by (simp add: woken_iff)
  with w assms(1) show ?thesis by (simp add: bound_ok_def sm)
next
  case (AfterAcquire k)
  with assms(4) have a: "at_pc k AcquireDone s"
    and sm: "semaphore s' = semaphore s"
    and c: "calls s' = set_pc k AwaitWork (calls s)"
    by (auto split: if_splits)
  from a have "list_ex (\<lambda>c. snd c = AcquireWoken) (calls s') \<longleftrightarrow>
      list_ex (\<lambda>c. snd c = AcquireWoken) (calls s)"
    unfolding c by (intro woken_set_pc_other) (simp_all add: at_pc_def)
  then have "woken s' = woken s" by (simp add: woken_def)
  with assms(1) show ?thesis by (simp add: bound_ok_def sm)
next
  case (WorkSettled k t)
  with assms(4) have a: "at_pc k AwaitWork s" and s': "s' = transform_worked k t s"
    by (auto split: if_splits)
  show ?thesis
  proof (cases "flowing s \<and> buffer s = []")
    case True
    let ?cs = "wake (snd (release (semaphore s))) (calls s)"
    from a woken_waits [OF assms(2)] have "snd (?cs ! k) \<noteq> AcquireWoken"
      by (auto simp: at_pc_def wake_nth)
    with a have "list_ex (\<lambda>c. snd c = AcquireWoken) (set_pc k Finished ?cs) \<longleftrightarrow>
      list_ex (\<lambda>c. snd c = AcquireWoken) ?cs"
      by (intro woken_set_pc_other) (simp_all add: at_pc_def)
    with True have "woken s' =
        woken (s\<lparr>semaphore := semaphore s', calls := ?cs\<rparr>)"
      by (simp add: s' woken_def)
    with woken_after_wake [OF assms(2,3), of "semaphore s'"] True assms(1)
    show ?thesis by (simp add: bound_ok_def s')
  next
    case False
    from a have "list_ex (\<lambda>c. snd c = AcquireWoken) (set_pc k Finished (calls s)) \<longleftrightarrow>
      list_ex (\<lambda>c. snd c = AcquireWoken) (calls s)"
      by (intro woken_set_pc_other) (simp_all add: at_pc_def)
    with False have "woken s' = woken s" by (auto simp: s' woken_def)
    with False assms(1) show ?thesis by (auto simp: bound_ok_def s')
  qed
next
  case Final
  with assms(1,4) show ?thesis by (auto simp: bound_ok_def woken_def split: if_splits)
next
  case Flow
  with assms(4) obtain b bs where s': "s' = emit_data b (s\<lparr>buffer := bs\<rparr>)"
    by (cases "buffer s") (auto split: if_splits)
  have "woken s' =
      woken (s\<lparr>semaphore := semaphore s',
               calls := wake (snd (release (semaphore s))) (calls s)\<rparr>)"
    by (simp add: s' woken_def)
  with woken_after_wake [OF assms(2,3), of "semaphore s'"] assms(1)
  show ?thesis by (simp add: bound_ok_def s')
next
  case Pause
  with assms(1,4) show ?thesis by (auto simp: bound_ok_def woken_def)
next
  case Resume
  with assms(1,4) show ?thesis by (auto simp: bound_ok_def woken_def)
qed

lemma size_cap_step: "step e s = Some s' \<Longrightarrow> size_cap (semaphore s') = size_cap (semaphore s)"
  by (cases e; cases "buffer s") (auto split: if_splits)

lemma stage_run_bound:
  assumes "bound_ok s \<and> waiters_ok s \<and> serial_ok s" and "run es s = Some s'"
  shows "bound_ok s' \<and> waiters_ok s' \<and> serial_ok s' \<and>
         size_cap (semaphore s') = size_cap (semaphore s)"
  using assms
proof (induction es arbitrary: s)
  case Nil
  then show ?case by simp
next
  case (Cons e es)
  then obtain s1 where e: "step e s = Some s1" and es: "run es s1 = Some s'"
    by (auto split: option.splits)
  from Cons.prems(1) e have "bound_ok s1 \<and> waiters_ok s1 \<and> serial_ok s1"
    using bound_ok_step waiters_ok_step serial_ok_step by blast
  from Cons.IH [OF this es] size_cap_step [OF e] show ?case by simp
qed

text \<open>
  Inside the stage the gate is never overfull: the stream hands over one chunk at a time,
  so nobody calls \<^verbatim>\<open>acquire\<close> while a woken waiter has yet to resume.
\<close>

lemma stage_within_capacity:
  assumes "0 \<le> hwm" and "run es (ConcurrentTransform hwm) = Some s"
  shows "running (semaphore s) \<le> size_cap (semaphore s) \<and> size_cap (semaphore s) = hwm"
proof -
  from assms(1) have "bound_ok (ConcurrentTransform hwm) \<and> waiters_ok (ConcurrentTransform hwm)
      \<and> serial_ok (ConcurrentTransform hwm)"
    by (simp add: bound_ok_def waiters_ok_def serial_ok_def woken_def ConcurrentTransform_def
        Semaphoreish_def)
  from stage_run_bound [OF this assms(2)] woken_bounds(1) [of s] show ?thesis
    by (simp add: bound_ok_def ConcurrentTransform_def Semaphoreish_def)
qed

section \<open>The transform stage: results\<close>

text \<open>
  C7.  In every run of the stage and for every call \<open>k\<close> of \<^verbatim>\<open>_transform\<close>, the
  statements executed for that call are an initial part of: the gate is acquired, the
  stream callback is called, the worker is called and awaited, the worker's result
  arrives, the enriched item is pushed.  So each happens at most once and in this order:
  no callback before the acquire has resolved, no push before the worker's result.
\<close>

theorem transform_order:
  assumes "run es (ConcurrentTransform hwm) = Some s"
  shows "prefix (item_events k (log s)) [KAcquired, KCallback, KWork, KSettled, KPushed]"
proof -
  from reachable_inv [OF assms] have "stage_ok s" by (simp add: inv_def)
  then have e: "item_events k (log s) =
      (if k < length (calls s) then stage (snd (calls s ! k)) else [])"
    by (simp add: stage_ok_def)
  show ?thesis
  proof (cases "k < length (calls s)")
    case True
    with e show ?thesis by (cases "snd (calls s ! k)") simp_all
  next
    case False
    with e show ?thesis by simp
  qed
qed

theorem transform_order_witness:
  "run [Write [(''id'', 0)], AfterAcquire 0, WorkSettled 0 5] (ConcurrentTransform 16) =
     Some \<lparr>semaphore = \<lparr>running = 0, size_cap = 16, resolvers = []\<rparr>, onFinal = False,
           calls = [([(''id'', 0)], Finished)], flowing = True, buffer = [],
           log = [Acquired 0, Callback 0, WorkCalled 0 Deferred, Settled 0 5,
                  Pushed 0 [(''id'', 0), (''changedAt'', 5)],
                  Data 0 [(''id'', 0), (''changedAt'', 5)], Released]\<rparr> \<and>
   prefix
     (item_events 0 [Acquired 0, Callback 0, WorkCalled 0 Deferred, Settled 0 5,
                  Pushed 0 [(''id'', 0), (''changedAt'', 5)],
                  Data 0 [(''id'', 0), (''changedAt'', 5)], Released])
     [KAcquired, KCallback, KWork, KSettled, KPushed]"
proof -
  have r: "run [Write [(''id'', 0)], AfterAcquire 0, WorkSettled 0 5] (ConcurrentTransform 16) =
     Some \<lparr>semaphore = \<lparr>running = 0, size_cap = 16, resolvers = []\<rparr>, onFinal = False,
           calls = [([(''id'', 0)], Finished)], flowing = True, buffer = [],
           log = [Acquired 0, Callback 0, WorkCalled 0 Deferred, Settled 0 5,
                  Pushed 0 [(''id'', 0), (''changedAt'', 5)],
                  Data 0 [(''id'', 0), (''changedAt'', 5)], Released]\<rparr>"
    by (simp add: run_defs)
  from transform_order [OF r, of 0] r show ?thesis by simp
qed

text \<open>
  C4.  In every run in which the stage has called its completion callback, every chunk
  handed to \<^verbatim>\<open>_transform\<close> has been pushed exactly once: there are as many pushes as
  accepted chunks, no call has pushed twice, every call has pushed, and the object pushed
  by call \<open>k\<close> is the \<open>k\<close>-th accepted chunk with its result added.  The objects emitted
  as \<^verbatim>\<open>'data'\<close>, which is what the piped sink is handed, are exactly the objects pushed,
  each once and in the order of the pushes.
\<close>

theorem conservation:
  assumes "run es (ConcurrentTransform hwm) = Some s" and "FinalCallback \<in> set (log s)"
  shows "length (pushes (log s)) = length (accepted es) \<and>
         distinct (map fst (pushes (log s))) \<and>
         fst ` set (pushes (log s)) = {..<length (accepted es)} \<and>
         (\<forall>k x. (k, x) \<in> set (pushes (log s)) \<longrightarrow> (\<exists>t. x = enrich (accepted es ! k) t)) \<and>
         emitted (log s) = pushes (log s)"
proof -
  note i = reachable_inv [OF assms(1)]
  from i have p: "pushes_ok s" and c: "counts_ok s" and d: "closed_ok s" and f: "flow_ok s"
    by (simp_all add: inv_def)
  from reachable_chunks [OF assms(1)] have n: "length (calls s) = length (accepted es)"
    by (metis length_map)
  have fin: "at_pc k Finished s \<longleftrightarrow> k < length (accepted es)" for k
    using all_finished [OF i assms(2), of k] n by (auto simp: at_pc_def)
  from p have dist: "distinct (map fst (pushes (log s)))"
    by (simp add: pushes_ok_def)
  from p fin have img: "fst ` set (pushes (log s)) = {..<length (accepted es)}"
    by (auto simp: pushes_ok_def)
  from distinct_card [OF dist] img have len: "length (pushes (log s)) = length (accepted es)"
    by simp
  have obj: "\<exists>t. x = enrich (accepted es ! k) t" if "(k, x) \<in> set (pushes (log s))" for k x
  proof -
    from that have "k \<in> fst ` set (pushes (log s))" by force
    with img n have "k < length (calls s)" by simp
    from reachable_chunk [OF assms(1) this]
    have ch: "fst (calls s ! k) = accepted es ! k" .
    from p that have "\<exists>t. x = enrich (fst (calls s ! k)) t"
      by (simp add: pushes_ok_def)
    with ch show ?thesis by simp
  qed
  from d assms(2) have "running (semaphore s) = 0" by (simp add: closed_ok_def)
  from drained(1) [OF c this] f have "emitted (log s) = pushes (log s)"
    by (simp add: flow_ok_def)
  with len dist img obj show ?thesis by blast
qed

theorem conservation_witness:
  "run [Write [(''id'', 0)], AfterAcquire 0, WorkSettled 0 5, Final] (ConcurrentTransform 16) =
     Some \<lparr>semaphore = \<lparr>running = 0, size_cap = 16, resolvers = []\<rparr>, onFinal = True,
           calls = [([(''id'', 0)], Finished)], flowing = True, buffer = [],
           log = [Acquired 0, Callback 0, WorkCalled 0 Deferred, Settled 0 5,
                  Pushed 0 [(''id'', 0), (''changedAt'', 5)],
                  Data 0 [(''id'', 0), (''changedAt'', 5)], Released, FinalCallback]\<rparr> \<and>
   FinalCallback \<in> set [Acquired 0, Callback 0, WorkCalled 0 Deferred, Settled 0 5,
                  Pushed 0 [(''id'', 0), (''changedAt'', 5)],
                  Data 0 [(''id'', 0), (''changedAt'', 5)], Released, FinalCallback] \<and>
   length (pushes [Acquired 0, Callback 0, WorkCalled 0 Deferred, Settled 0 5,
                  Pushed 0 [(''id'', 0), (''changedAt'', 5)],
                  Data 0 [(''id'', 0), (''changedAt'', 5)], Released, FinalCallback]) =
     length (accepted [Write [(''id'', 0)], AfterAcquire 0, WorkSettled 0 5, Final]) \<and>
   emitted [Acquired 0, Callback 0, WorkCalled 0 Deferred, Settled 0 5,
                  Pushed 0 [(''id'', 0), (''changedAt'', 5)],
                  Data 0 [(''id'', 0), (''changedAt'', 5)], Released, FinalCallback] =
     [(0, [(''id'', 0), (''changedAt'', 5)])]"
proof -
  have r: "run [Write [(''id'', 0)], AfterAcquire 0, WorkSettled 0 5, Final]
      (ConcurrentTransform 16) =
     Some \<lparr>semaphore = \<lparr>running = 0, size_cap = 16, resolvers = []\<rparr>, onFinal = True,
           calls = [([(''id'', 0)], Finished)], flowing = True, buffer = [],
           log = [Acquired 0, Callback 0, WorkCalled 0 Deferred, Settled 0 5,
                  Pushed 0 [(''id'', 0), (''changedAt'', 5)],
                  Data 0 [(''id'', 0), (''changedAt'', 5)], Released, FinalCallback]\<rparr>"
    by (simp add: run_defs)
  from conservation [OF r] r show ?thesis by simp
qed

subsection \<open>The results of the workers\<close>

lemma settled_append [simp]: "settled (as @ bs) = settled as @ settled bs"
  by (induction as rule: settled.induct) simp_all








text \<open>
  C6.  The claim that the gate is released when the worker of an item completes fails
  when the readable side is paused: after the worker of the only item has settled and
  the item has been pushed, the call has finished, the item sits in the buffer, the log
  holds no release, and \<open>running\<close> is still 1.
\<close>

theorem release_deferred_counterexample:
  "run [Write [(''id'', 0)], AfterAcquire 0, Pause, WorkSettled 0 1] (ConcurrentTransform 16) =
     Some \<lparr>semaphore = \<lparr>running = 1, size_cap = 16, resolvers = []\<rparr>, onFinal = False,
           calls = [([(''id'', 0)], Finished)], flowing = False,
           buffer = [(0, [(''id'', 0), (''changedAt'', 1)])],
           log = [Acquired 0, Callback 0, WorkCalled 0 Deferred, Settled 0 1,
                  Pushed 0 [(''id'', 0), (''changedAt'', 1)]]\<rparr>"
  by (simp add: run_defs)

text \<open>
  C6, as the code has it.  The gate is released by the \<^verbatim>\<open>'data'\<close> listener, that is,
  when the enriched item is emitted by the readable side.  In every state \<open>s\<close> that a run
  reaches:

  \<^item> when the worker of call \<open>k\<close> settles with \<open>t\<close> while the stream is flowing with
    nothing buffered, the item is pushed, emitted and the gate released in that same
    job: the log grows by the result, the push, the \<^verbatim>\<open>'data'\<close> event and the release,
    in this order (and by the two calls of the completion callback when \<^verbatim>\<open>_final\<close>
    has been called and this was the last holder), \<open>running\<close> is one lower and the buffer
    stays empty;

  \<^item> when it settles while the stream is paused or something is buffered, the log grows
    by the result and the push only, the gate is left as it is, and the item is added at
    the end of the buffer;

  \<^item> when the stream later emits the first buffered item, the log grows by its
    \<^verbatim>\<open>'data'\<close> event and the release (and one call of the completion callback when due),
    and \<open>running\<close> is one lower;

  \<^item> over the whole run the emissions and the releases alternate, every emission being
    followed by one release and every release following an emission; the items pushed
    are the items emitted followed by the items still buffered; and \<open>running\<close> counts the
    calls between acquire and push together with the buffered items.
\<close>

theorem release_at_emission:
  assumes "run es (ConcurrentTransform hwm) = Some s"
  shows "(step (WorkSettled k t) s = Some s1 \<and> flowing s \<and> buffer s = [] \<longrightarrow>
            log s1 = log s @
              [Settled k t, Pushed k (enrich (accepted es ! k) t),
               Data k (enrich (accepted es ! k) t), Released] @
              (if running (semaphore s) = 1 \<and> onFinal s
               then [FinalCallback, FinalCallback] else []) \<and>
            running (semaphore s1) = running (semaphore s) - 1 \<and>
            buffer s1 = []) \<and>
         (step (WorkSettled k t) s = Some s1 \<and> \<not> (flowing s \<and> buffer s = []) \<longrightarrow>
            log s1 = log s @ [Settled k t, Pushed k (enrich (accepted es ! k) t)] \<and>
            semaphore s1 = semaphore s \<and>
            buffer s1 = buffer s @ [(k, enrich (accepted es ! k) t)]) \<and>
         (step Flow s = Some s2 \<longrightarrow>
            (\<exists>x xs. buffer s = x # xs \<and> buffer s2 = xs \<and>
               log s2 = log s @ [Data (fst x) (snd x), Released] @
                 (if running (semaphore s) = 1 \<and> onFinal s then [FinalCallback] else []) \<and>
               running (semaphore s2) = running (semaphore s) - 1)) \<and>
         data_release (log s) =
           concat (map (\<lambda>x. [Data (fst x) (snd x), Released]) (emitted (log s))) \<and>
         pushes (log s) = emitted (log s) @ buffer s \<and>
         running (semaphore s) = holders (calls s) + int (length (buffer s))"
proof -
  note i = reachable_inv [OF assms]
  from i have c: "counts_ok s" by (simp add: inv_def)
  have w: "at_pc k AwaitWork s \<and> s1 = transform_worked k t s \<and>
      fst (calls s ! k) = accepted es ! k \<and> 1 \<le> running (semaphore s)"
    if "step (WorkSettled k t) s = Some s1"
  proof -
    from that have a: "at_pc k AwaitWork s" and s1: "s1 = transform_worked k t s"
      by (auto split: if_splits)
    from a have kl: "k < length (calls s)" and "holding (snd (calls s ! k))"
      by (simp_all add: at_pc_def)
    from holders_pos [OF this] c have "1 \<le> running (semaphore s)"
      by (simp add: counts_ok_def)
    with a s1 reachable_chunk [OF assms kl] show ?thesis by simp
  qed
  have a: "step (WorkSettled k t) s = Some s1 \<and> flowing s \<and> buffer s = [] \<longrightarrow>
            log s1 = log s @
              [Settled k t, Pushed k (enrich (accepted es ! k) t),
               Data k (enrich (accepted es ! k) t), Released] @
              (if running (semaphore s) = 1 \<and> onFinal s
               then [FinalCallback, FinalCallback] else []) \<and>
            running (semaphore s1) = running (semaphore s) - 1 \<and>
            buffer s1 = []"
    using w by (auto simp: transform_worked_log)
  have b: "step (WorkSettled k t) s = Some s1 \<and> \<not> (flowing s \<and> buffer s = []) \<longrightarrow>
            log s1 = log s @ [Settled k t, Pushed k (enrich (accepted es ! k) t)] \<and>
            semaphore s1 = semaphore s \<and>
            buffer s1 = buffer s @ [(k, enrich (accepted es ! k) t)]"
    using w by (auto simp: transform_worked_log)
  have f: "step Flow s = Some s2 \<longrightarrow>
            (\<exists>x xs. buffer s = x # xs \<and> buffer s2 = xs \<and>
               log s2 = log s @ [Data (fst x) (snd x), Released] @
                 (if running (semaphore s) = 1 \<and> onFinal s then [FinalCallback] else []) \<and>
               running (semaphore s2) = running (semaphore s) - 1)"
    by (cases "buffer s") (auto simp: emit_data_log split: if_splits)
  from i have g: "data_release (log s) =
           concat (map (\<lambda>x. [Data (fst x) (snd x), Released]) (emitted (log s))) \<and>
         pushes (log s) = emitted (log s) @ buffer s \<and>
         running (semaphore s) = holders (calls s) + int (length (buffer s))"
    by (simp add: inv_def flow_ok_def counts_ok_def)
  from a b f g show ?thesis by blast
qed

text \<open>
  One item on a gate of size 16.  On a flowing stream the worker's result brings the
  release with it (\<open>running\<close> goes from 1 to 0); on a paused stream it leaves the gate as
  it is; and the release comes when the stream, resumed, emits the buffered item.
\<close>

theorem release_at_emission_witness:
  "run [Write [(''id'', 0)], AfterAcquire 0] (ConcurrentTransform 16) =
     Some \<lparr>semaphore = \<lparr>running = 1, size_cap = 16, resolvers = []\<rparr>, onFinal = False,
       calls = [([(''id'', 0)], AwaitWork)], flowing = True, buffer = [],
       log = [Acquired 0, Callback 0, WorkCalled 0 Deferred]\<rparr> \<and>
   step (WorkSettled 0 1)
     \<lparr>semaphore = \<lparr>running = 1, size_cap = 16, resolvers = []\<rparr>, onFinal = False,
       calls = [([(''id'', 0)], AwaitWork)], flowing = True, buffer = [],
       log = [Acquired 0, Callback 0, WorkCalled 0 Deferred]\<rparr> =
     Some \<lparr>semaphore = \<lparr>running = 0, size_cap = 16, resolvers = []\<rparr>, onFinal = False,
       calls = [([(''id'', 0)], Finished)], flowing = True, buffer = [],
       log = [Acquired 0, Callback 0, WorkCalled 0 Deferred,
              Settled 0 1, Pushed 0 [(''id'', 0), (''changedAt'', 1)],
              Data 0 [(''id'', 0), (''changedAt'', 1)], Released]\<rparr> \<and>
   running (semaphore
     \<lparr>semaphore = \<lparr>running = 0, size_cap = 16, resolvers = []\<rparr>, onFinal = False,
       calls = [([(''id'', 0)], Finished)], flowing = True, buffer = [],
       log = [Acquired 0, Callback 0, WorkCalled 0 Deferred,
              Settled 0 1, Pushed 0 [(''id'', 0), (''changedAt'', 1)],
              Data 0 [(''id'', 0), (''changedAt'', 1)], Released]\<rparr>) =
   running (semaphore
     \<lparr>semaphore = \<lparr>running = 1, size_cap = 16, resolvers = []\<rparr>, onFinal = False,
       calls = [([(''id'', 0)], AwaitWork)], flowing = True, buffer = [],
       log = [Acquired 0, Callback 0, WorkCalled 0 Deferred]\<rparr>) - 1 \<and>
   run [Write [(''id'', 0)], AfterAcquire 0, Pause] (ConcurrentTransform 16) =
     Some \<lparr>semaphore = \<lparr>running = 1, size_cap = 16, resolvers = []\<rparr>, onFinal = False,
       calls = [([(''id'', 0)], AwaitWork)], flowing = False, buffer = [],
       log = [Acquired 0, Callback 0, WorkCalled 0 Deferred]\<rparr> \<and>
   step (WorkSettled 0 1)
     \<lparr>semaphore = \<lparr>running = 1, size_cap = 16, resolvers = []\<rparr>, onFinal = False,
       calls = [([(''id'', 0)], AwaitWork)], flowing = False, buffer = [],
       log = [Acquired 0, Callback 0, WorkCalled 0 Deferred]\<rparr> =
     Some \<lparr>semaphore = \<lparr>running = 1, size_cap = 16, resolvers = []\<rparr>, onFinal = False,
       calls = [([(''id'', 0)], Finished)], flowing = False, buffer = [(0, [(''id'', 0), (''changedAt'', 1)])],
       log = [Acquired 0, Callback 0, WorkCalled 0 Deferred,
              Settled 0 1, Pushed 0 [(''id'', 0), (''changedAt'', 1)]]\<rparr> \<and>
   semaphore
     \<lparr>semaphore = \<lparr>running = 1, size_cap = 16, resolvers = []\<rparr>, onFinal = False,
       calls = [([(''id'', 0)], Finished)], flowing = False, buffer = [(0, [(''id'', 0), (''changedAt'', 1)])],
       log = [Acquired 0, Callback 0, WorkCalled 0 Deferred,
              Settled 0 1, Pushed 0 [(''id'', 0), (''changedAt'', 1)]]\<rparr> =
   semaphore
     \<lparr>semaphore = \<lparr>running = 1, size_cap = 16, resolvers = []\<rparr>, onFinal = False,
       calls = [([(''id'', 0)], AwaitWork)], flowing = False, buffer = [],
       log = [Acquired 0, Callback 0, WorkCalled 0 Deferred]\<rparr> \<and>
   run [Write [(''id'', 0)], AfterAcquire 0, Pause, WorkSettled 0 1, Resume] (ConcurrentTransform 16) =
     Some \<lparr>semaphore = \<lparr>running = 1, size_cap = 16, resolvers = []\<rparr>, onFinal = False,
       calls = [([(''id'', 0)], Finished)], flowing = True, buffer = [(0, [(''id'', 0), (''changedAt'', 1)])],
       log = [Acquired 0, Callback 0, WorkCalled 0 Deferred,
              Settled 0 1, Pushed 0 [(''id'', 0), (''changedAt'', 1)]]\<rparr> \<and>
   step Flow
     \<lparr>semaphore = \<lparr>running = 1, size_cap = 16, resolvers = []\<rparr>, onFinal = False,
       calls = [([(''id'', 0)], Finished)], flowing = True, buffer = [(0, [(''id'', 0), (''changedAt'', 1)])],
       log = [Acquired 0, Callback 0, WorkCalled 0 Deferred,
              Settled 0 1, Pushed 0 [(''id'', 0), (''changedAt'', 1)]]\<rparr> =
     Some \<lparr>semaphore = \<lparr>running = 0, size_cap = 16, resolvers = []\<rparr>, onFinal = False,
       calls = [([(''id'', 0)], Finished)], flowing = True, buffer = [],
       log = [Acquired 0, Callback 0, WorkCalled 0 Deferred,
              Settled 0 1, Pushed 0 [(''id'', 0), (''changedAt'', 1)],
              Data 0 [(''id'', 0), (''changedAt'', 1)], Released]\<rparr> \<and>
   running (semaphore
     \<lparr>semaphore = \<lparr>running = 0, size_cap = 16, resolvers = []\<rparr>, onFinal = False,
       calls = [([(''id'', 0)], Finished)], flowing = True, buffer = [],
       log = [Acquired 0, Callback 0, WorkCalled 0 Deferred,
              Settled 0 1, Pushed 0 [(''id'', 0), (''changedAt'', 1)],
              Data 0 [(''id'', 0), (''changedAt'', 1)], Released]\<rparr>) =
   running (semaphore
     \<lparr>semaphore = \<lparr>running = 1, size_cap = 16, resolvers = []\<rparr>, onFinal = False,
       calls = [([(''id'', 0)], Finished)], flowing = True, buffer = [(0, [(''id'', 0), (''changedAt'', 1)])],
       log = [Acquired 0, Callback 0, WorkCalled 0 Deferred,
              Settled 0 1, Pushed 0 [(''id'', 0), (''changedAt'', 1)]]\<rparr>) - 1"
proof -
  have ra: "run [Write [(''id'', 0)], AfterAcquire 0] (ConcurrentTransform 16) =
     Some \<lparr>semaphore = \<lparr>running = 1, size_cap = 16, resolvers = []\<rparr>, onFinal = False,
       calls = [([(''id'', 0)], AwaitWork)], flowing = True, buffer = [],
       log = [Acquired 0, Callback 0, WorkCalled 0 Deferred]\<rparr>"
    by (simp add: run_defs)
  have sa: "step (WorkSettled 0 1)
     \<lparr>semaphore = \<lparr>running = 1, size_cap = 16, resolvers = []\<rparr>, onFinal = False,
       calls = [([(''id'', 0)], AwaitWork)], flowing = True, buffer = [],
       log = [Acquired 0, Callback 0, WorkCalled 0 Deferred]\<rparr> =
     Some \<lparr>semaphore = \<lparr>running = 0, size_cap = 16, resolvers = []\<rparr>, onFinal = False,
       calls = [([(''id'', 0)], Finished)], flowing = True, buffer = [],
       log = [Acquired 0, Callback 0, WorkCalled 0 Deferred,
              Settled 0 1, Pushed 0 [(''id'', 0), (''changedAt'', 1)],
              Data 0 [(''id'', 0), (''changedAt'', 1)], Released]\<rparr>"
    by (simp add: run_defs)
  have fa: "flowing
     \<lparr>semaphore = \<lparr>running = 1, size_cap = 16, resolvers = []\<rparr>, onFinal = False,
       calls = [([(''id'', 0)], AwaitWork)], flowing = True, buffer = [],
       log = [Acquired 0, Callback 0, WorkCalled 0 Deferred]\<rparr> \<and>
   buffer
     \<lparr>semaphore = \<lparr>running = 1, size_cap = 16, resolvers = []\<rparr>, onFinal = False,
       calls = [([(''id'', 0)], AwaitWork)], flowing = True, buffer = [],
       log = [Acquired 0, Callback 0, WorkCalled 0 Deferred]\<rparr> = []"
    by simp
  from release_at_emission [OF ra] sa fa
  have ca: "running (semaphore
     \<lparr>semaphore = \<lparr>running = 0, size_cap = 16, resolvers = []\<rparr>, onFinal = False,
       calls = [([(''id'', 0)], Finished)], flowing = True, buffer = [],
       log = [Acquired 0, Callback 0, WorkCalled 0 Deferred,
              Settled 0 1, Pushed 0 [(''id'', 0), (''changedAt'', 1)],
              Data 0 [(''id'', 0), (''changedAt'', 1)], Released]\<rparr>) =
   running (semaphore
     \<lparr>semaphore = \<lparr>running = 1, size_cap = 16, resolvers = []\<rparr>, onFinal = False,
       calls = [([(''id'', 0)], AwaitWork)], flowing = True, buffer = [],
       log = [Acquired 0, Callback 0, WorkCalled 0 Deferred]\<rparr>) - 1"
    by blast
  have rb: "run [Write [(''id'', 0)], AfterAcquire 0, Pause] (ConcurrentTransform 16) =
     Some \<lparr>semaphore = \<lparr>running = 1, size_cap = 16, resolvers = []\<rparr>, onFinal = False,
       calls = [([(''id'', 0)], AwaitWork)], flowing = False, buffer = [],
       log = [Acquired 0, Callback 0, WorkCalled 0 Deferred]\<rparr>"
    by (simp add: run_defs)
  have sb: "step (WorkSettled 0 1)
     \<lparr>semaphore = \<lparr>running = 1, size_cap = 16, resolvers = []\<rparr>, onFinal = False,
       calls = [([(''id'', 0)], AwaitWork)], flowing = False, buffer = [],
       log = [Acquired 0, Callback 0, WorkCalled 0 Deferred]\<rparr> =
     Some \<lparr>semaphore = \<lparr>running = 1, size_cap = 16, resolvers = []\<rparr>, onFinal = False,
       calls = [([(''id'', 0)], Finished)], flowing = False, buffer = [(0, [(''id'', 0), (''changedAt'', 1)])],
       log = [Acquired 0, Callback 0, WorkCalled 0 Deferred,
              Settled 0 1, Pushed 0 [(''id'', 0), (''changedAt'', 1)]]\<rparr>"
    by (simp add: run_defs)
  have fb: "\<not> (flowing
     \<lparr>semaphore = \<lparr>running = 1, size_cap = 16, resolvers = []\<rparr>, onFinal = False,
       calls = [([(''id'', 0)], AwaitWork)], flowing = False, buffer = [],
       log = [Acquired 0, Callback 0, WorkCalled 0 Deferred]\<rparr> \<and>
   buffer
     \<lparr>semaphore = \<lparr>running = 1, size_cap = 16, resolvers = []\<rparr>, onFinal = False,
       calls = [([(''id'', 0)], AwaitWork)], flowing = False, buffer = [],
       log = [Acquired 0, Callback 0, WorkCalled 0 Deferred]\<rparr> = [])"
    by simp
  from release_at_emission [OF rb] sb fb
  have cb: "semaphore
     \<lparr>semaphore = \<lparr>running = 1, size_cap = 16, resolvers = []\<rparr>, onFinal = False,
       calls = [([(''id'', 0)], Finished)], flowing = False, buffer = [(0, [(''id'', 0), (''changedAt'', 1)])],
       log = [Acquired 0, Callback 0, WorkCalled 0 Deferred,
              Settled 0 1, Pushed 0 [(''id'', 0), (''changedAt'', 1)]]\<rparr> =
   semaphore
     \<lparr>semaphore = \<lparr>running = 1, size_cap = 16, resolvers = []\<rparr>, onFinal = False,
       calls = [([(''id'', 0)], AwaitWork)], flowing = False, buffer = [],
       log = [Acquired 0, Callback 0, WorkCalled 0 Deferred]\<rparr>"
    by blast
  have rc: "run [Write [(''id'', 0)], AfterAcquire 0, Pause, WorkSettled 0 1, Resume] (ConcurrentTransform 16) =
     Some \<lparr>semaphore = \<lparr>running = 1, size_cap = 16, resolvers = []\<rparr>, onFinal = False,
       calls = [([(''id'', 0)], Finished)], flowing = True, buffer = [(0, [(''id'', 0), (''changedAt'', 1)])],
       log = [Acquired 0, Callback 0, WorkCalled 0 Deferred,
              Settled 0 1, Pushed 0 [(''id'', 0), (''changedAt'', 1)]]\<rparr>"
    by (simp add: run_defs)
  have sc: "step Flow
     \<lparr>semaphore = \<lparr>running = 1, size_cap = 16, resolvers = []\<rparr>, onFinal = False,
       calls = [([(''id'', 0)], Finished)], flowing = True, buffer = [(0, [(''id'', 0), (''changedAt'', 1)])],
       log = [Acquired 0, Callback 0, WorkCalled 0 Deferred,
              Settled 0 1, Pushed 0 [(''id'', 0), (''changedAt'', 1)]]\<rparr> =
     Some \<lparr>semaphore = \<lparr>running = 0, size_cap = 16, resolvers = []\<rparr>, onFinal = False,
       calls = [([(''id'', 0)], Finished)], flowing = True, buffer = [],
       log = [Acquired 0, Callback 0, WorkCalled 0 Deferred,
              Settled 0 1, Pushed 0 [(''id'', 0), (''changedAt'', 1)],
              Data 0 [(''id'', 0), (''changedAt'', 1)], Released]\<rparr>"
    by (simp add: run_defs)
  from release_at_emission [OF rc] sc
  have cc: "running (semaphore
     \<lparr>semaphore = \<lparr>running = 0, size_cap = 16, resolvers = []\<rparr>, onFinal = False,
       calls = [([(''id'', 0)], Finished)], flowing = True, buffer = [],
       log = [Acquired 0, Callback 0, WorkCalled 0 Deferred,
              Settled 0 1, Pushed 0 [(''id'', 0), (''changedAt'', 1)],
              Data 0 [(''id'', 0), (''changedAt'', 1)], Released]\<rparr>) =
   running (semaphore
     \<lparr>semaphore = \<lparr>running = 1, size_cap = 16, resolvers = []\<rparr>, onFinal = False,
       calls = [([(''id'', 0)], Finished)], flowing = True, buffer = [(0, [(''id'', 0), (''changedAt'', 1)])],
       log = [Acquired 0, Callback 0, WorkCalled 0 Deferred,
              Settled 0 1, Pushed 0 [(''id'', 0), (''changedAt'', 1)]]\<rparr>) - 1"
    by blast
  from ra sa ca rb sb cb rc sc cc show ?thesis by (intro conjI)
qed

text \<open>
  C2.  The completion callback is called twice in the run of a single item with
  \<^verbatim>\<open>id\<close> 0, whose worker answers with a promise.  The item is admitted and its callback
  called; the stream, having no more input, calls \<^verbatim>\<open>_final\<close> while the worker is
  outstanding (\<open>running = 1\<close>, so the callback is only stored); then the worker settles
  and the item is pushed on a flowing stream: the \<^verbatim>\<open>'data'\<close> listener releases the
  gate and its \<^verbatim>\<open>_checkDone\<close> calls the stored callback, and back in \<^verbatim>\<open>_transform\<close>
  the \<^verbatim>\<open>_checkDone\<close> after the push calls it again.
\<close>

theorem completion_callback_called_twice:
  "work (get_field ''id'' [(''id'', 0)]) = Deferred \<and>
   run [Write [(''id'', 0)], AfterAcquire 0, Final, WorkSettled 0 1] (ConcurrentTransform 16) =
     Some \<lparr>semaphore = \<lparr>running = 0, size_cap = 16, resolvers = []\<rparr>, onFinal = True,
           calls = [([(''id'', 0)], Finished)], flowing = True, buffer = [],
           log = [Acquired 0, Callback 0, WorkCalled 0 Deferred, Settled 0 1,
                  Pushed 0 [(''id'', 0), (''changedAt'', 1)],
                  Data 0 [(''id'', 0), (''changedAt'', 1)], Released,
                  FinalCallback, FinalCallback]\<rparr> \<and>
   final_calls [Acquired 0, Callback 0, WorkCalled 0 Deferred, Settled 0 1,
                  Pushed 0 [(''id'', 0), (''changedAt'', 1)],
                  Data 0 [(''id'', 0), (''changedAt'', 1)], Released,
                  FinalCallback, FinalCallback] = 2"
  by (simp add: run_defs final_calls_def)

end
